theory Spec2Isabelle
  imports Main "HOL-Library.Sublist"
begin

section \<open>Name normalization: \<^verbatim>\<open>stripPrefix\<close>\<close>

text \<open>
  The synchronization script \<^verbatim>\<open>astro.config.mjs\<close> (its third part, the docs sync
  utility) normalizes a file or directory name with
  \<^verbatim>\<open>
  function stripPrefix(name) {
      return name.replace(/^\d+-/, "");
  }
  \<close>
  A name is a \<^typ>\<open>string\<close>. The pattern only tells ASCII digits and the hyphen from
  everything else, so every other character is opaque to it.

  \<open>\d\<close> matches exactly the ten ASCII digits. The pattern is anchored at the start
  and has no global flag, so \<open>replace\<close> rewrites at most the one match at index 0.
  \<open>\d+\<close> is greedy; as no digit is a hyphen, the only digit run after which a hyphen
  can follow is the maximal one, which \<open>takeWhile\<close> computes.
\<close>

definition is_digit :: "char \<Rightarrow> bool" where
  "is_digit c = (c \<in> set ''0123456789'')"

text \<open>\<open>match_prefix name\<close> is what follows the match of \<open>/^\d+-/\<close> in \<open>name\<close>,
  or \<open>None\<close> when the pattern does not match.\<close>

definition match_prefix :: "string \<Rightarrow> string option" where
  "match_prefix name =
     (case dropWhile is_digit name of
        [] \<Rightarrow> None
      | c # rest \<Rightarrow>
          if takeWhile is_digit name \<noteq> [] \<and> c = CHR ''-'' then Some rest else None)"

definition stripPrefix :: "string \<Rightarrow> string" where
  "stripPrefix name = (case match_prefix name of Some rest \<Rightarrow> rest | None \<Rightarrow> name)"

text \<open>
  The pattern the specification writes, \<open>^[0-9]+-(.+)$\<close>, read as a regular
  expression of the same dialect: a non-empty digit run, a hyphen, and a captured group
  of one or more characters none of which is a line terminator (the dot does not match
  one), up to the end of the name. \<open>spec_capture f\<close> is the captured group \<open>\1\<close>.
  Of the dialect's line terminators only LF and CR are single characters here.
\<close>

definition line_terminator :: "char \<Rightarrow> bool" where
  "line_terminator c = (c = CHR 0x0A \<or> c = CHR 0x0D)"

definition spec_capture :: "string \<Rightarrow> string option" where
  "spec_capture f =
     (let ds = takeWhile is_digit f; r = dropWhile is_digit f
      in if ds \<noteq> [] \<and> r \<noteq> [] \<and> hd r = CHR ''-'' \<and> tl r \<noteq> []
            \<and> \<not> list_ex line_terminator (tl r)
         then Some (tl r) else None)"

section \<open>The environment: paths, the file system, subprocesses\<close>

text \<open>
  The script works on absolute paths built with \<^verbatim>\<open>path.join\<close> from the directory
  that holds it. A path is the list of its segments below the root. \<open>path_join\<close> is
  \<^verbatim>\<open>path.join(p, s)\<close> for an absolute \<open>p\<close>: \<open>s\<close> is cut at every slash, empty
  segments and \<open>.\<close> are dropped, and \<open>..\<close> steps to the parent (the root is its own parent).
\<close>

type_synonym path = "string list"

fun segments :: "string \<Rightarrow> string \<Rightarrow> string list" where
  "segments acc [] = [acc]"
| "segments acc (c # cs) =
     (if c = CHR ''/'' then acc # segments [] cs else segments (acc @ [c]) cs)"

definition path_step :: "path \<Rightarrow> string \<Rightarrow> path" where
  "path_step p seg =
     (if seg = [] \<or> seg = ''.'' then p else if seg = ''..'' then butlast p else p @ [seg])"

definition path_join :: "path \<Rightarrow> string \<Rightarrow> path" where
  "path_join p s = foldl path_step p (segments [] s)"

definition path_string :: "path \<Rightarrow> string" where
  "path_string p = (if p = [] then ''/'' else concat (map (\<lambda>s. CHR ''/'' # s) p))"

text \<open>
  The file system is a tree of files (with their bytes) and directories. A directory is
  the list of its entries in the order \<^verbatim>\<open>readdir\<close> reports them. Symbolic links and
  permissions are not modelled. A name a directory can really hold is not empty, is not
  \<open>.\<close> or \<open>..\<close> and has no slash, and no directory holds a name twice: \<open>wf_node\<close>.
\<close>

datatype node = File string | Dir "(string \<times> node) list"

fun is_dir :: "node \<Rightarrow> bool" where
  "is_dir (Dir es) = True"
| "is_dir (File c) = False"

definition valid_name :: "string \<Rightarrow> bool" where
  "valid_name n = (n \<noteq> [] \<and> n \<noteq> ''.'' \<and> n \<noteq> ''..'' \<and> CHR ''/'' \<notin> set n)"

fun wf_node :: "node \<Rightarrow> bool" where
  "wf_node (File c) = True"
| "wf_node (Dir es) =
     (distinct (map fst es) \<and> (\<forall>e \<in> set es. valid_name (fst e) \<and> wf_node (snd e)))"

fun map_entry :: "string \<Rightarrow> (node \<Rightarrow> node) \<Rightarrow> (string \<times> node) list \<Rightarrow> (string \<times> node) list" where
  "map_entry s f [] = []"
| "map_entry s f (e # es) = (if fst e = s then (s, f (snd e)) # es else e # map_entry s f es)"

fun lookup :: "node \<Rightarrow> path \<Rightarrow> node option" where
  "lookup n [] = Some n"
| "lookup (File c) (s # p) = None"
| "lookup (Dir es) (s # p) = (case map_of es s of None \<Rightarrow> None | Some c \<Rightarrow> lookup c p)"

text \<open>\<open>remove p t\<close> deletes the entry at \<open>p\<close> with everything below it, if there is one.\<close>

fun remove :: "path \<Rightarrow> node \<Rightarrow> node" where
  "remove [] n = n"
| "remove (s # p) (File c) = File c"
| "remove [s] (Dir es) = Dir (filter (\<lambda>e. fst e \<noteq> s) es)"
| "remove (s # p) (Dir es) = Dir (map_entry s (\<lambda>c. remove p c) es)"

text \<open>\<open>put p x t\<close> makes \<open>x\<close> the node at \<open>p\<close>: it takes the place of the node that is
  there, or becomes a new last entry of the parent directory.\<close>

fun put :: "path \<Rightarrow> node \<Rightarrow> node \<Rightarrow> node" where
  "put [] x n = x"
| "put (s # p) x (File c) = File c"
| "put (s # p) x (Dir es) =
     (if map_of es s \<noteq> None then Dir (map_entry s (\<lambda>c. put p x c) es)
      else if p = [] then Dir (es @ [(s, x)])
      else Dir es)"

fun mkchain :: "path \<Rightarrow> node" where
  "mkchain [] = Dir []"
| "mkchain (s # p) = Dir [(s, mkchain p)]"

text \<open>\<open>mkdirp p t\<close> is \<^verbatim>\<open>mkdir -p\<close>: \<open>None\<close> when a file is in the way.\<close>

fun mkdirp :: "path \<Rightarrow> node \<Rightarrow> node option" where
  "mkdirp p (File c) = None"
| "mkdirp [] (Dir es) = Some (Dir es)"
| "mkdirp (s # p) (Dir es) =
     (case map_of es s of
        None \<Rightarrow> Some (Dir (es @ [(s, mkchain p)]))
      | Some c \<Rightarrow>
          (case mkdirp p c of
             None \<Rightarrow> None
           | Some c' \<Rightarrow> Some (Dir (map_entry s (\<lambda>_. c') es))))"

text \<open>Copying \<open>src\<close> over an existing \<open>dst\<close> with \<^verbatim>\<open>force: true\<close>: a file replaces a
  file, a directory is merged into a directory entry by entry, and a file and a
  directory do not mix (\<open>None\<close>).\<close>

fun merge :: "node \<Rightarrow> node \<Rightarrow> node option"
  and merge_entries :: "(string \<times> node) list \<Rightarrow> (string \<times> node) list \<Rightarrow> (string \<times> node) list option" where
  "merge (File c) (File d) = Some (File c)"
| "merge (File c) (Dir ds) = None"
| "merge (Dir es) (File d) = None"
| "merge (Dir es) (Dir ds) = map_option Dir (merge_entries es ds)"
| "merge_entries [] ds = Some ds"
| "merge_entries (e # es) ds =
     (case map_of ds (fst e) of
        None \<Rightarrow> merge_entries es (ds @ [e])
      | Some d \<Rightarrow>
          (case merge (snd e) d of
             None \<Rightarrow> None
           | Some m \<Rightarrow> merge_entries es (map_entry (fst e) (\<lambda>_. m) ds)))"

text \<open>
  What the process has done so far is kept as a list of events, one for every call that
  reaches outside the process, appended when the call is made (whether or not it then
  succeeds). Console output is not part of it.
\<close>

datatype event =
    EvSpawn string "string list"
  | EvRm path
  | EvChdir path
  | EvReaddir path
  | EvRename path path
  | EvCp path path

record state =
  fs :: node
  cwd :: path
  log :: "event list"

text \<open>
  A run ends in one of three ways besides running to its end: \<^verbatim>\<open>process.exit(n)\<close>,
  an exception nobody catches (the script has no \<^verbatim>\<open>try\<close>), or the recursion of
  \<open>renameAll\<close> nesting deeper than the call stack allows. Each keeps the state reached.
\<close>

datatype errno = ENOENT | ENOTDIR | EISDIR | ENOTEMPTY | EINVAL | EBUSY

datatype abort = Exit int | Uncaught errno | DepthExceeded

type_synonym 'a result = "(abort \<times> state) + 'a"

definition seq :: "'a result \<Rightarrow> ('a \<Rightarrow> 'b result) \<Rightarrow> 'b result" where
  "seq r f = (case r of Inl a \<Rightarrow> Inl a | Inr x \<Rightarrow> f x)"

definition record_event :: "event \<Rightarrow> state \<Rightarrow> state" where
  "record_event e w = w\<lparr>log := log w @ [e]\<rparr>"

definition existsSync :: "state \<Rightarrow> path \<Rightarrow> bool" where
  "existsSync w p = (lookup (fs w) p \<noteq> None)"

text \<open>\<^verbatim>\<open>fs.rmSync(p, { recursive: true, force: true })\<close>: a missing path is not an error.\<close>

definition rmSync :: "state \<Rightarrow> path \<Rightarrow> state" where
  "rmSync w p = (record_event (EvRm p) w)\<lparr>fs := remove p (fs w)\<rparr>"

definition chdir :: "state \<Rightarrow> path \<Rightarrow> state result" where
  "chdir w p =
     (let w' = record_event (EvChdir p) w
      in case lookup (fs w) p of
           None \<Rightarrow> Inl (Uncaught ENOENT, w')
         | Some (File c) \<Rightarrow> Inl (Uncaught ENOTDIR, w')
         | Some (Dir es) \<Rightarrow> Inr (w'\<lparr>cwd := p\<rparr>))"

text \<open>\<^verbatim>\<open>fs.readdirSync(p, { withFileTypes: true })\<close>: each entry's name and whether it
  is a directory, as of the moment of the call.\<close>

definition readdirSync :: "state \<Rightarrow> path \<Rightarrow> ((string \<times> bool) list \<times> state) result" where
  "readdirSync w p =
     (let w' = record_event (EvReaddir p) w
      in case lookup (fs w) p of
           None \<Rightarrow> Inl (Uncaught ENOENT, w')
         | Some (File c) \<Rightarrow> Inl (Uncaught ENOTDIR, w')
         | Some (Dir es) \<Rightarrow> Inr (map (\<lambda>e. (fst e, is_dir (snd e))) es, w'))"

text \<open>
  \<^verbatim>\<open>fs.renameSync(old, new)\<close> is \<^verbatim>\<open>rename(2)\<close>: the source must exist; the root
  cannot be moved or replaced; a directory cannot move below itself; the parent of the
  target must be a directory; an existing target is replaced when it is a file and the
  source is one too, or when it is an empty directory and the source is a directory.
\<close>

definition renameSync :: "state \<Rightarrow> path \<Rightarrow> path \<Rightarrow> state result" where
  "renameSync w old new =
     (let w' = record_event (EvRename old new) w;
          moved = (\<lambda>src. Inr (w'\<lparr>fs := put new src (remove old (fs w))\<rparr>))
      in case lookup (fs w) old of
           None \<Rightarrow> Inl (Uncaught ENOENT, w')
         | Some src \<Rightarrow>
             if old = [] \<or> new = [] then Inl (Uncaught EBUSY, w')
             else if old = new then Inr w'
             else if prefix old new then Inl (Uncaught EINVAL, w')
             else (case lookup (fs w) (butlast new) of
                     None \<Rightarrow> Inl (Uncaught ENOENT, w')
                   | Some (File c) \<Rightarrow> Inl (Uncaught ENOTDIR, w')
                   | Some (Dir ps) \<Rightarrow>
                       (case lookup (fs w) new of
                          None \<Rightarrow> moved src
                        | Some (File c) \<Rightarrow>
                            if is_dir src then Inl (Uncaught ENOTDIR, w') else moved src
                        | Some (Dir ds) \<Rightarrow>
                            if \<not> is_dir src then Inl (Uncaught EISDIR, w')
                            else if ds \<noteq> [] then Inl (Uncaught ENOTEMPTY, w')
                            else moved src)))"

text \<open>
  \<^verbatim>\<open>fs.cpSync(src, dst, { recursive: true, force: true, errorOnExist: false })\<close>:
  the source must exist and the target must not lie in it; missing parents of the
  target are created; an existing target is merged into.
\<close>

definition cpSync :: "state \<Rightarrow> path \<Rightarrow> path \<Rightarrow> state result" where
  "cpSync w src dst =
     (let w' = record_event (EvCp src dst) w
      in case lookup (fs w) src of
           None \<Rightarrow> Inl (Uncaught ENOENT, w')
         | Some s \<Rightarrow>
             if prefix src dst then Inl (Uncaught EINVAL, w')
             else (case mkdirp (butlast dst) (fs w) of
                     None \<Rightarrow> Inl (Uncaught ENOTDIR, w')
                   | Some t \<Rightarrow>
                       (case lookup t dst of
                          None \<Rightarrow> Inr (w'\<lparr>fs := put dst s t\<rparr>)
                        | Some d \<Rightarrow>
                            (case merge s d of
                               None \<Rightarrow> Inl (Uncaught EISDIR, w')
                             | Some m \<Rightarrow> Inr (w'\<lparr>fs := put dst m t\<rparr>)))))"

text \<open>
  \<^verbatim>\<open>spawn.sync(command, args, { stdio: "inherit" })\<close> runs a program that is not part
  of the repository. It is a parameter: from the command, its arguments, the working
  directory and the file system it gives the result object and the file system it
  leaves. Of the result object, \<open>error\<close> is set when the program could not be launched,
  and \<open>status\<close> is the exit status of a program that ran to its end.
\<close>

record spawn_result =
  error :: "string option"
  status :: "int option"

type_synonym spawn = "string \<Rightarrow> string list \<Rightarrow> path \<Rightarrow> node \<Rightarrow> spawn_result \<times> node"

section \<open>The script\<close>

text \<open>
  \<^verbatim>\<open>
  function run(command, args) {
      const result = spawn.sync(command, args, { stdio: "inherit" });
      if (result.error) {
          console.error(`Error running ${command}`, result.error);
          process.exit(1);
      }
  }
  \<close>
\<close>

definition run :: "spawn \<Rightarrow> string \<Rightarrow> string list \<Rightarrow> state \<Rightarrow> state result" where
  "run sp command args w =
     (let (result, t) = sp command args (cwd w) (fs w);
          w' = (record_event (EvSpawn command args) w)\<lparr>fs := t\<rparr>
      in if error result \<noteq> None then Inl (Exit 1, w') else Inr w')"

text \<open>
  \<^verbatim>\<open>
  function renameAll(dirPath) {
      const items = fs.readdirSync(dirPath, { withFileTypes: true });
      for (const item of items) {
          const oldPath = path.join(dirPath, item.name);
          const newName = stripPrefix(item.name);
          const newPath = path.join(dirPath, newName);
          if (oldPath !== newPath) {
              fs.renameSync(oldPath, newPath);
          }
          if (item.isDirectory()) {
              renameAll(newPath);
          }
      }
  }
  \<close>
  \<open>renameItems\<close> is the loop over the listing taken at the start. The first argument
  bounds how deep the calls may still nest.
\<close>

fun renameAll :: "nat \<Rightarrow> state \<Rightarrow> path \<Rightarrow> state result"
  and renameItems :: "nat \<Rightarrow> state \<Rightarrow> path \<Rightarrow> (string \<times> bool) list \<Rightarrow> state result" where
  "renameAll 0 w dirPath = Inl (DepthExceeded, w)"
| "renameAll (Suc k) w dirPath =
     (case readdirSync w dirPath of
        Inl a \<Rightarrow> Inl a
      | Inr (items, w') \<Rightarrow> renameItems k w' dirPath items)"
| "renameItems k w dirPath [] = Inr w"
| "renameItems k w dirPath (item # items) =
     (let oldPath = path_join dirPath (fst item);
          newName = stripPrefix (fst item);
          newPath = path_join dirPath newName
      in case (if oldPath \<noteq> newPath then renameSync w oldPath newPath else Inr w) of
           Inl a \<Rightarrow> Inl a
         | Inr w1 \<Rightarrow>
             (case (if snd item then renameAll k w1 newPath else Inr w1) of
                Inl a \<Rightarrow> Inl a
              | Inr w2 \<Rightarrow> renameItems k w2 dirPath items))"

text \<open>
  The script itself, top to bottom. \<open>script_dir\<close> is \<^verbatim>\<open>__dirname\<close>.
\<close>

definition clone_args :: "path \<Rightarrow> string list" where
  "clone_args cacheDir =
     [''clone'', ''--depth'', ''1'', ''--no-checkout'', ''https://github.com/vercel/next.js'',
      path_string cacheDir]"

definition dirname :: "path \<Rightarrow> path" where
  "dirname script_dir = path_join script_dir ''../''"

definition cacheDir :: "path \<Rightarrow> path" where
  "cacheDir script_dir = path_join (dirname script_dir) ''.cache/next''"

definition docsDir :: "path \<Rightarrow> path" where
  "docsDir script_dir = path_join (cacheDir script_dir) ''docs''"

definition docsPath :: "path \<Rightarrow> path" where
  "docsPath script_dir = path_join (dirname script_dir) ''src/content/docs/docs''"

definition sync :: "spawn \<Rightarrow> nat \<Rightarrow> path \<Rightarrow> state \<Rightarrow> state result" where
  "sync sp depth script_dir w0 =
     (let w1 = (if existsSync w0 (cacheDir script_dir) then rmSync w0 (cacheDir script_dir) else w0)
      in seq (run sp ''git'' (clone_args (cacheDir script_dir)) w1) (\<lambda>w2.
         seq (chdir w2 (cacheDir script_dir)) (\<lambda>w3.
         seq (run sp ''git'' [''sparse-checkout'', ''set'', ''docs''] w3) (\<lambda>w4.
         seq (run sp ''git'' [''checkout''] w4) (\<lambda>w5.
         seq (renameAll depth w5 (docsDir script_dir)) (\<lambda>w6.
         let w7 = (if existsSync w6 (docsPath script_dir) then rmSync w6 (docsPath script_dir) else w6)
         in cpSync w7 (docsDir script_dir) (docsPath script_dir)))))))"

text \<open>The exit code of the process: 0 at the end of the script, the argument of
  \<^verbatim>\<open>process.exit\<close>, and 1 for an uncaught exception.\<close>

fun exit_code :: "state result \<Rightarrow> int" where
  "exit_code (Inr w) = 0"
| "exit_code (Inl (Exit n, w)) = n"
| "exit_code (Inl (Uncaught e, w)) = 1"
| "exit_code (Inl (DepthExceeded, w)) = 1"

fun final_state :: "state result \<Rightarrow> state" where
  "final_state (Inr w) = w"
| "final_state (Inl (a, w)) = w"

text \<open>
  The script in two phases: \<open>checkout\<close> is everything up to and including the third
  \<^verbatim>\<open>git\<close> call, \<open>publish\<close> is the rest (normalization, deletion of the old
  destination, copy). \<open>sync\<close> is the one after the other (\<open>sync_phases\<close> below).
\<close>

definition checkout :: "spawn \<Rightarrow> path \<Rightarrow> state \<Rightarrow> state result" where
  "checkout sp script_dir w0 =
     (let w1 = (if existsSync w0 (cacheDir script_dir) then rmSync w0 (cacheDir script_dir) else w0)
      in seq (run sp ''git'' (clone_args (cacheDir script_dir)) w1) (\<lambda>w2.
         seq (chdir w2 (cacheDir script_dir)) (\<lambda>w3.
         seq (run sp ''git'' [''sparse-checkout'', ''set'', ''docs''] w3) (\<lambda>w4.
         run sp ''git'' [''checkout''] w4))))"

definition publish :: "nat \<Rightarrow> path \<Rightarrow> state \<Rightarrow> state result" where
  "publish depth script_dir w5 =
     seq (renameAll depth w5 (docsDir script_dir)) (\<lambda>w6.
       let w7 = (if existsSync w6 (docsPath script_dir) then rmSync w6 (docsPath script_dir) else w6)
       in cpSync w7 (docsDir script_dir) (docsPath script_dir))"

text \<open>The state after the script's first step, the removal of an old cache directory.\<close>

definition reset_cache :: "path \<Rightarrow> state \<Rightarrow> state" where
  "reset_cache script_dir w0 =
     (if existsSync w0 (cacheDir script_dir) then rmSync w0 (cacheDir script_dir) else w0)"

section \<open>Notions used by the statements\<close>

fun is_spawn :: "event \<Rightarrow> bool" where
  "is_spawn (EvSpawn c a) = True"
| "is_spawn e = False"

fun is_traversal :: "event \<Rightarrow> bool" where
  "is_traversal (EvReaddir p) = True"
| "is_traversal (EvRename p q) = True"
| "is_traversal e = False"

text \<open>The subprocess invocations made so far, in order.\<close>

definition spawned :: "state \<Rightarrow> event list" where
  "spawned w = filter is_spawn (log w)"

text \<open>The three invocations the script is written to make.\<close>

definition git_calls :: "path \<Rightarrow> event list" where
  "git_calls script_dir =
     [EvSpawn ''git'' (clone_args (cacheDir script_dir)),
      EvSpawn ''git'' [''sparse-checkout'', ''set'', ''docs''],
      EvSpawn ''git'' [''checkout'']]"

text \<open>\<open>grows P w r\<close>: the outcome \<open>r\<close> was reached from \<open>w\<close> by events that all
  satisfy \<open>P\<close>.\<close>

definition grows :: "(event \<Rightarrow> bool) \<Rightarrow> state \<Rightarrow> state result \<Rightarrow> bool" where
  "grows P w r = (\<exists>L. log (final_state r) = log w @ L \<and> list_all P L)"

subsection \<open>The normalized image of a tree\<close>

text \<open>
  \<open>norm_tree t\<close> is \<open>t\<close> with \<open>stripPrefix\<close> applied to the name of every entry at
  every level; file contents stay as they are. The entries whose name does not change
  keep their places and the renamed ones follow them (a rename makes a new last entry).
  \<open>paths_of t\<close> is the set of the relative paths of all entries of \<open>t\<close>.

  \<open>cf_node t\<close> says that no directory of \<open>t\<close> has a collision: no two entries of
  a directory have the same stripped name, and no entry's stripped name is the name of
  another entry of the directory.
\<close>

definition cf_names :: "string list \<Rightarrow> bool" where
  "cf_names ns =
     (distinct (map stripPrefix ns)
      \<and> (\<forall>n \<in> set ns. stripPrefix n \<noteq> n \<longrightarrow> stripPrefix n \<notin> set ns))"

fun cf_node :: "node \<Rightarrow> bool" where
  "cf_node (File c) = True"
| "cf_node (Dir es) = (cf_names (map fst es) \<and> (\<forall>e \<in> set es. cf_node (snd e)))"

fun norm_tree :: "node \<Rightarrow> node"
  and kept :: "(string \<times> node) list \<Rightarrow> (string \<times> node) list"
  and moved :: "(string \<times> node) list \<Rightarrow> (string \<times> node) list" where
  "norm_tree (File c) = File c"
| "norm_tree (Dir es) = Dir (kept es @ moved es)"
| "kept [] = []"
| "kept (e # es) =
     (if stripPrefix (fst e) = fst e then (fst e, norm_tree (snd e)) # kept es else kept es)"
| "moved [] = []"
| "moved (e # es) =
     (if stripPrefix (fst e) \<noteq> fst e then (stripPrefix (fst e), norm_tree (snd e)) # moved es
      else moved es)"

fun paths_of :: "node \<Rightarrow> path set" where
  "paths_of (File c) = {}"
| "paths_of (Dir es) = (\<Union>e \<in> set es. insert [fst e] ((#) (fst e) ` paths_of (snd e)))"

subsection \<open>The order of a traversal\<close>





subsection \<open>A concrete site and stand-ins for the version-control program\<close>

text \<open>
  \<open>stub_git tree outcome\<close> stands in for \<^verbatim>\<open>git\<close>: \<^verbatim>\<open>clone\<close> creates the target
  directory (its last argument) with an empty \<^verbatim>\<open>.git\<close>, \<^verbatim>\<open>checkout\<close> writes
  \<open>tree\<close> as \<^verbatim>\<open>docs\<close> into the working directory, and the result object of each
  subcommand is what \<open>outcome\<close> says.
\<close>

definition exited :: "int \<Rightarrow> spawn_result" where
  "exited n = \<lparr>error = None, status = Some n\<rparr>"

definition launch_failed :: spawn_result where
  "launch_failed = \<lparr>error = Some ''spawn git ENOENT'', status = None\<rparr>"

definition stub_git :: "node \<Rightarrow> (string \<Rightarrow> spawn_result) \<Rightarrow> spawn" where
  "stub_git tree outcome command args wd t =
     (outcome (hd args),
      if hd args = ''clone'' then
        (case mkdirp (path_join [] (last args)) t of
           None \<Rightarrow> t
         | Some t' \<Rightarrow> put (path_join [] (last args) @ [''.git'']) (Dir []) t')
      else if hd args = ''checkout'' then put (wd @ [''docs'']) tree t
      else t)"

definition site_before :: node where
  "site_before =
     Dir [(''site'',
       Dir [(''scripts'', Dir [(''sync.mjs'', File ''run'')]),
            (''src'', Dir [(''content'', Dir [(''docs'', Dir [(''docs'',
               Dir [(''stale.mdx'', File ''old'')])])])])])]"

definition upstream_docs :: node where
  "upstream_docs =
     Dir [(''01-app'',
            Dir [(''01-getting-started'', Dir [(''01-installation.mdx'', File ''install'')]),
                 (''index.mdx'', File ''app'')]),
          (''index.mdx'', File ''docs'')]"

definition start :: state where
  "start = \<lparr>fs = site_before, cwd = [''site''], log = []\<rparr>"


text \<open>An upstream tree with collisions, and the run that mirrors it.\<close>

definition colliding_docs :: node where
  "colliding_docs =
     Dir [(''1-2-a'', File ''one''), (''2-a'', File ''two''),
          (''1-b'', Dir [(''1-2-x'', File ''x'')]), (''b'', Dir [])]"

definition colliding_run :: "state result" where
  "colliding_run = sync (stub_git colliding_docs (\<lambda>c. exited 0)) 8 [''site'', ''scripts''] start"

text \<open>The run in which \<^verbatim>\<open>git sparse-checkout\<close> exits with a non-zero status.\<close>

definition sparse_failing_run :: "state result" where
  "sparse_failing_run =
     sync (stub_git upstream_docs (\<lambda>c. if c = ''sparse-checkout'' then exited 129 else exited 0))
       8 [''site'', ''scripts''] start"

text \<open>
  What the \<^verbatim>\<open>git clone\<close> invocation of the script returns and leaves, and what it
  is for the clone to fail. The program cannot be launched, or it ends otherwise than
  with status 0; in the latter case the directory it was to create is not there
  afterwards: \<^verbatim>\<open>git clone\<close> removes the directory it has made when it fails, and
  the script has removed an older one just before.
\<close>

definition clone_outcome :: "spawn \<Rightarrow> path \<Rightarrow> state \<Rightarrow> spawn_result \<times> node" where
  "clone_outcome sp script_dir w0 =
     sp ''git'' (clone_args (cacheDir script_dir)) (cwd (reset_cache script_dir w0))
       (fs (reset_cache script_dir w0))"

definition clone_fails :: "spawn \<Rightarrow> path \<Rightarrow> state \<Rightarrow> bool" where
  "clone_fails sp script_dir w0 =
     (error (fst (clone_outcome sp script_dir w0)) \<noteq> None
      \<or> (status (fst (clone_outcome sp script_dir w0)) \<noteq> Some 0
          \<and> lookup (snd (clone_outcome sp script_dir w0)) (cacheDir script_dir) = None))"

text \<open>A \<^verbatim>\<open>git\<close> that cannot reach the remote host: every invocation exits with
  status 128 and leaves the file system as it was.\<close>

definition unreachable_git :: spawn where
  "unreachable_git command args wd t = (exited 128, t)"

section \<open>Properties of \<open>stripPrefix\<close>\<close>

subsection \<open>The pattern as a language\<close>

lemma takeWhile_digits_hyphen:
  assumes "list_all is_digit ds"
  shows "takeWhile is_digit (ds @ CHR ''-'' # rest) = ds"
    and "dropWhile is_digit (ds @ CHR ''-'' # rest) = CHR ''-'' # rest"
  using assms by (induction ds) (simp_all add: is_digit_def)

text \<open>The scan agrees with the declarative reading of \<open>/^\d+-/\<close>: the name is some
  non-empty run of digits, a hyphen, and the remainder.\<close>

lemma match_prefix_iff:
  "match_prefix name = Some rest \<longleftrightarrow>
     (\<exists>ds. ds \<noteq> [] \<and> list_all is_digit ds \<and> name = ds @ CHR ''-'' # rest)"
proof
  assume m: "match_prefix name = Some rest"
  let ?ds = "takeWhile is_digit name"
  from m have d: "dropWhile is_digit name = CHR ''-'' # rest" and ne: "?ds \<noteq> []"
    by (auto simp: match_prefix_def split: list.splits if_splits)
  have "name = ?ds @ dropWhile is_digit name" by simp
  with d have "name = ?ds @ CHR ''-'' # rest" by simp
  moreover have "list_all is_digit ?ds"
    by (simp add: list_all_iff) (meson set_takeWhileD)
  ultimately show "\<exists>ds. ds \<noteq> [] \<and> list_all is_digit ds \<and> name = ds @ CHR ''-'' # rest"
    using ne by blast
next
  assume "\<exists>ds. ds \<noteq> [] \<and> list_all is_digit ds \<and> name = ds @ CHR ''-'' # rest"
  then obtain ds where "ds \<noteq> []" "list_all is_digit ds" "name = ds @ CHR ''-'' # rest"
    by blast
  then show "match_prefix name = Some rest"
    by (simp add: match_prefix_def takeWhile_digits_hyphen)
qed

lemma match_prefix_None_iff:
  "match_prefix name = None \<longleftrightarrow>
     \<not> (\<exists>ds rest. ds \<noteq> [] \<and> list_all is_digit ds \<and> name = ds @ CHR ''-'' # rest)"
proof -
  have "match_prefix name = None \<longleftrightarrow> \<not> (\<exists>rest. match_prefix name = Some rest)"
    by (cases "match_prefix name") simp_all
  then show ?thesis by (simp only: match_prefix_iff) blast
qed

lemma spec_capture_iff:
  "spec_capture f = Some g \<longleftrightarrow>
     (\<exists>ds. ds \<noteq> [] \<and> list_all is_digit ds \<and> f = ds @ CHR ''-'' # g
           \<and> g \<noteq> [] \<and> \<not> list_ex line_terminator g)"
proof
  assume s: "spec_capture f = Some g"
  let ?ds = "takeWhile is_digit f" and ?r = "dropWhile is_digit f"
  from s have *: "?ds \<noteq> []" "?r \<noteq> []" "hd ?r = CHR ''-''" "tl ?r = g" "g \<noteq> []"
    "\<not> list_ex line_terminator g"
    by (auto simp: spec_capture_def Let_def split: if_splits)
  then have "?r = CHR ''-'' # g" by (cases ?r) simp_all
  moreover have "f = ?ds @ ?r" by simp
  ultimately have "f = ?ds @ CHR ''-'' # g" by simp
  moreover have "list_all is_digit ?ds"
    by (simp add: list_all_iff) (meson set_takeWhileD)
  ultimately show "\<exists>ds. ds \<noteq> [] \<and> list_all is_digit ds \<and> f = ds @ CHR ''-'' # g
      \<and> g \<noteq> [] \<and> \<not> list_ex line_terminator g"
    using * by blast
next
  assume "\<exists>ds. ds \<noteq> [] \<and> list_all is_digit ds \<and> f = ds @ CHR ''-'' # g
      \<and> g \<noteq> [] \<and> \<not> list_ex line_terminator g"
  then obtain ds where "ds \<noteq> []" "list_all is_digit ds" "f = ds @ CHR ''-'' # g"
    "g \<noteq> []" "\<not> list_ex line_terminator g"
    by blast
  then show "spec_capture f = Some g"
    by (simp add: spec_capture_def takeWhile_digits_hyphen)
qed

lemma spec_capture_match: "spec_capture f = Some g \<Longrightarrow> match_prefix f = Some g"
  unfolding spec_capture_iff match_prefix_iff by blast

lemma stripPrefix_cases:
  "(match_prefix name = None \<and> stripPrefix name = name)
   \<or> (\<exists>rest. match_prefix name = Some rest \<and> stripPrefix name = rest)"
  by (cases "match_prefix name") (simp_all add: stripPrefix_def)

lemma match_prefix_shorter: "match_prefix name = Some rest \<Longrightarrow> length rest < length name"
  unfolding match_prefix_iff by auto

lemma match_prefix_suffix: "match_prefix name = Some rest \<Longrightarrow> suffix rest name"
  unfolding match_prefix_iff by (auto simp: suffix_def intro: exI [of _ "_ @ [CHR ''-'']"])

lemma match_prefix_first_digit:
  "match_prefix name = Some rest \<Longrightarrow> name \<noteq> [] \<and> is_digit (hd name)"
  unfolding match_prefix_iff by (auto simp: neq_Nil_conv)

lemma match_prefix_README: "match_prefix ''README.mdx'' = None"
  by (simp add: match_prefix_def is_digit_def)

lemma match_prefix_install: "match_prefix ''01-install.mdx'' = Some ''install.mdx''"
  by (simp add: match_prefix_def is_digit_def)

lemma match_prefix_install_rest: "match_prefix ''install.mdx'' = None"
  by (simp add: match_prefix_def is_digit_def)

text \<open>
  Claim C3, as stated: normalization is idempotent, \<open>stripPrefix (stripPrefix n) =
  stripPrefix n\<close> for every name, so that after one pass no name matches the
  numeric-prefix pattern. It fails on a name with two stacked prefixes: the pattern is
  applied once, at the start, and \<open>1-2-a\<close> becomes \<open>2-a\<close>, which still matches and
  which a second application turns into \<open>a\<close>.
\<close>

theorem stripPrefix_twice_differs:
  "stripPrefix ''1-2-a'' = ''2-a'' \<and> stripPrefix (stripPrefix ''1-2-a'') = ''a''
   \<and> stripPrefix (stripPrefix ''1-2-a'') \<noteq> stripPrefix ''1-2-a''
   \<and> match_prefix (stripPrefix ''1-2-a'') = Some ''a''"
  by (simp add: stripPrefix_def match_prefix_def is_digit_def)

text \<open>
  Claim C3, amended: \<open>stripPrefix\<close> removes one numeric prefix, so a second application
  changes nothing exactly when the name normalized once no longer begins with a run of
  digits followed by a hyphen.
\<close>

theorem stripPrefix_idempotent_iff:
  "stripPrefix (stripPrefix n) = stripPrefix n \<longleftrightarrow>
     \<not> (\<exists>ds rest. ds \<noteq> [] \<and> list_all is_digit ds \<and> stripPrefix n = ds @ CHR ''-'' # rest)"
proof -
  have "stripPrefix (stripPrefix n) = stripPrefix n \<longleftrightarrow> match_prefix (stripPrefix n) = None"
  proof (cases "match_prefix (stripPrefix n)")
    case None
    then show ?thesis by (simp add: stripPrefix_def [of "stripPrefix n"])
  next
    case (Some rest)
    then have "length rest < length (stripPrefix n)" by (rule match_prefix_shorter)
    with Some show ?thesis by (auto simp: stripPrefix_def [of "stripPrefix n"])
  qed
  then show ?thesis by (simp only: match_prefix_None_iff)
qed

theorem stripPrefix_idempotent_iff_witness:
  "stripPrefix (stripPrefix ''01-install.mdx'') = stripPrefix ''01-install.mdx''"
proof -
  have "stripPrefix ''01-install.mdx'' = ''install.mdx''"
    by (simp add: stripPrefix_def match_prefix_install)
  moreover have "\<not> (\<exists>ds rest. ds \<noteq> [] \<and> list_all is_digit ds
      \<and> ''install.mdx'' = ds @ CHR ''-'' # rest)"
    by (rule match_prefix_None_iff [THEN iffD1, OF match_prefix_install_rest])
  ultimately show ?thesis
    using stripPrefix_idempotent_iff [of "''01-install.mdx''"] by simp
qed

text \<open>
  Claim C4, as stated: every name that does not match \<open>^[0-9]+-(.+)$\<close> is returned
  unchanged. The code's pattern is \<open>^\d+-\<close>, which asks for nothing after the hyphen:
  \<open>123-\<close> does not match the specification's pattern, and \<open>stripPrefix\<close> turns it
  into the empty name.
\<close>

theorem stripPrefix_changes_unmatched:
  "spec_capture ''123-'' = None \<and> stripPrefix ''123-'' = [] \<and> stripPrefix ''123-'' \<noteq> ''123-''"
  by (simp add: spec_capture_def stripPrefix_def match_prefix_def is_digit_def)

text \<open>
  Claim C4, amended: every name that does not begin with a non-empty run of digits
  followed by a hyphen (the pattern \<open>^[0-9]+-\<close>) is returned unchanged.
\<close>

theorem stripPrefix_identity:
  assumes "\<not> (\<exists>ds rest. ds \<noteq> [] \<and> list_all is_digit ds \<and> name = ds @ CHR ''-'' # rest)"
  shows "stripPrefix name = name"
proof -
  have "match_prefix name = None" by (rule match_prefix_None_iff [THEN iffD2, OF assms])
  then show ?thesis by (simp add: stripPrefix_def)
qed

theorem stripPrefix_identity_witness: "stripPrefix ''README.mdx'' = ''README.mdx''"
proof -
  have "\<not> (\<exists>ds rest. ds \<noteq> [] \<and> list_all is_digit ds \<and> ''README.mdx'' = ds @ CHR ''-'' # rest)"
    by (rule match_prefix_None_iff [THEN iffD1, OF match_prefix_README])
  then show ?thesis by (rule stripPrefix_identity)
qed

text \<open>
  Claim C5: for every name \<open>f\<close> that matches \<open>^[0-9]+-(.+)$\<close>, \<open>stripPrefix f\<close> is
  exactly the captured group: what follows the first digit run and its hyphen, extension
  included.
\<close>

theorem stripPrefix_captured_group:
  assumes "spec_capture f = Some g"
  shows "stripPrefix f = g"
  using spec_capture_match [OF assms] by (simp add: stripPrefix_def)

theorem stripPrefix_captured_group_witness:
  "spec_capture ''01-install.mdx'' = Some ''install.mdx''
   \<and> stripPrefix ''01-install.mdx'' = ''install.mdx''"
proof -
  have h: "spec_capture ''01-install.mdx'' = Some ''install.mdx''"
    by (simp add: spec_capture_def is_digit_def line_terminator_def)
  from h stripPrefix_captured_group [OF h] show ?thesis by simp
qed

text \<open>
  Claim C9: \<open>stripPrefix name\<close> is a suffix of \<open>name\<close>, so it is no longer than \<open>name\<close>;
  it is as long as \<open>name\<close> exactly when \<open>name\<close> does not begin with one or more ASCII
  digits followed at once by a hyphen; and a name whose first character is not a digit
  (the empty name has none) is a fixed point.
\<close>

theorem stripPrefix_suffix:
  "suffix (stripPrefix name) name
   \<and> length (stripPrefix name) \<le> length name
   \<and> (length (stripPrefix name) = length name \<longleftrightarrow>
        \<not> (\<exists>ds rest. ds \<noteq> [] \<and> list_all is_digit ds \<and> name = ds @ CHR ''-'' # rest))
   \<and> (name = [] \<or> \<not> is_digit (hd name) \<longrightarrow> stripPrefix name = name)"
proof (cases "match_prefix name")
  case None
  then have "stripPrefix name = name" by (simp add: stripPrefix_def)
  moreover
  have "\<not> (\<exists>ds rest. ds \<noteq> [] \<and> list_all is_digit ds \<and> name = ds @ CHR ''-'' # rest)"
    by (rule match_prefix_None_iff [THEN iffD1, OF None])
  ultimately show ?thesis by simp
next
  case (Some rest)
  then have s: "stripPrefix name = rest" by (simp add: stripPrefix_def)
  from Some have "\<exists>ds rest. ds \<noteq> [] \<and> list_all is_digit ds \<and> name = ds @ CHR ''-'' # rest"
    unfolding match_prefix_iff by blast
  moreover note match_prefix_shorter [OF Some] match_prefix_suffix [OF Some]
    match_prefix_first_digit [OF Some]
  ultimately show ?thesis unfolding s by simp
qed

theorem stripPrefix_suffix_witness:
  "suffix (stripPrefix ''01-install.mdx'') ''01-install.mdx''
   \<and> length (stripPrefix ''01-install.mdx'') < length ''01-install.mdx''
   \<and> stripPrefix ''README.mdx'' = ''README.mdx''"
proof -
  have "\<not> is_digit (hd ''README.mdx'')" by (simp add: is_digit_def)
  then have "stripPrefix ''README.mdx'' = ''README.mdx''"
    using stripPrefix_suffix [of "''README.mdx''"] by blast
  moreover have "stripPrefix ''01-install.mdx'' = ''install.mdx''"
    by (simp add: stripPrefix_def match_prefix_install)
  ultimately show ?thesis
    using stripPrefix_suffix [of "''01-install.mdx''"] by simp
qed

section \<open>Paths and the file system\<close>

lemma segments_no_slash: "CHR ''/'' \<notin> set n \<Longrightarrow> segments acc n = [acc @ n]"
  by (induction n arbitrary: acc) auto

lemma path_join_valid: "valid_name n \<Longrightarrow> path_join p n = p @ [n]"
  by (simp add: path_join_def valid_name_def segments_no_slash path_step_def)

lemma path_join_Nil: "path_join p [] = p"
  by (simp add: path_join_def path_step_def)

lemma path_join_cases:
  "CHR ''/'' \<notin> set n \<Longrightarrow>
     path_join p n = p \<or> path_join p n = butlast p \<or> (valid_name n \<and> path_join p n = p @ [n])"
  by (auto simp: path_join_def valid_name_def segments_no_slash path_step_def)

lemma lookup_append:
  "lookup t (p @ q) = (case lookup t p of None \<Rightarrow> None | Some c \<Rightarrow> lookup c q)"
  by (induction t p rule: lookup.induct) (auto split: option.splits)

lemma lookup_parent:
  assumes "lookup t (p @ [s]) = Some c"
  shows "\<exists>es. lookup t p = Some (Dir es) \<and> map_of es s = Some c"
proof -
  from assms obtain d where d: "lookup t p = Some d" "lookup d [s] = Some c"
    by (auto simp: lookup_append split: option.splits)
  then show ?thesis by (cases d) (auto split: option.splits)
qed

lemma lookup_child:
  "lookup t p = Some (Dir es) \<Longrightarrow> lookup t (p @ [s]) = map_of es s"
  by (simp add: lookup_append split: option.splits)

section \<open>Sequencing and the event log\<close>

lemma seq_Inl [simp]: "seq (Inl a) f = Inl a"
  and seq_Inr [simp]: "seq (Inr x) f = f x"
  by (simp_all add: seq_def)

lemma final_state_Inl [simp]: "final_state (Inl a) = snd a"
  by (cases a) simp

lemma sync_phases: "sync sp depth sd w0 = seq (checkout sp sd w0) (publish depth sd)"
  by (simp add: sync_def checkout_def publish_def Let_def seq_def split: sum.splits)

lemma grows_Inr: "grows P w (Inr w)"
  by (simp add: grows_def)

lemma grows_seq:
  assumes "grows P w r" and "\<And>w1. r = Inr w1 \<Longrightarrow> grows P w1 (f w1)"
  shows "grows P w (seq r f)"
proof (cases r)
  case (Inl a)
  with assms(1) show ?thesis by simp
next
  case (Inr w1)
  from assms(1) Inr obtain L where L: "log w1 = log w @ L" "list_all P L"
    by (auto simp: grows_def)
  from assms(2) [OF Inr] obtain M where "log (final_state (f w1)) = log w1 @ M" "list_all P M"
    by (auto simp: grows_def)
  with L Inr show ?thesis by (auto simp: grows_def)
qed

lemma grows_step:
  assumes "grows P w0 (Inr w)" and "grows P w r"
  shows "grows P w0 r"
  using assms by (auto simp: grows_def)

lemma renameSync_log: "log (final_state (renameSync w old new)) = log w @ [EvRename old new]"
  by (simp add: renameSync_def record_event_def Let_def split: option.splits node.splits)

lemma renameSync_grows: "grows is_traversal w (renameSync w old new)"
  by (simp add: grows_def renameSync_log)

lemma readdirSync_Inl: "readdirSync w p = Inl a \<Longrightarrow> snd a = record_event (EvReaddir p) w"
  by (auto simp: readdirSync_def Let_def split: option.splits node.splits)

lemma readdirSync_Inr:
  "readdirSync w p = Inr (items, w') \<Longrightarrow>
     w' = record_event (EvReaddir p) w
     \<and> (\<exists>es. lookup (fs w) p = Some (Dir es) \<and> items = map (\<lambda>e. (fst e, is_dir (snd e))) es)"
  by (auto simp: readdirSync_def Let_def split: option.splits node.splits)

text \<open>The loop body, with the \<open>let\<close>s unfolded.\<close>

lemma renameItems_Cons:
  "renameItems k w p (item # items) =
     seq (if path_join p (fst item) \<noteq> path_join p (stripPrefix (fst item))
          then renameSync w (path_join p (fst item)) (path_join p (stripPrefix (fst item)))
          else Inr w)
       (\<lambda>w1. seq (if snd item then renameAll k w1 (path_join p (stripPrefix (fst item))) else Inr w1)
       (\<lambda>w2. renameItems k w2 p items))"
  by (simp add: seq_def Let_def)

declare renameItems.simps(2) [simp del]

lemma renameItems_grows:
  assumes "\<And>w p. grows is_traversal w (renameAll k w p)"
  shows "grows is_traversal w (renameItems k w p items)"
proof (induction items arbitrary: w)
  case Nil
  show ?case by (simp add: grows_Inr)
next
  case (Cons item items)
  show ?case
    unfolding renameItems_Cons
    by (intro grows_seq) (auto simp: renameSync_grows grows_Inr assms Cons.IH)
qed

text \<open>Normalization only lists directories and renames.\<close>

lemma renameAll_grows: "grows is_traversal w (renameAll k w p)"
proof (induction k arbitrary: w p)
  case 0
  show ?case by (simp add: grows_def)
next
  case (Suc k)
  show ?case
  proof (cases "readdirSync w p")
    case (Inl a)
    with readdirSync_Inl [OF Inl] show ?thesis
      by (simp add: grows_def record_event_def)
  next
    case (Inr b)
    obtain items w' where b: "b = (items, w')" by (cases b)
    from readdirSync_Inr [OF Inr [unfolded b]]
    have "grows is_traversal w (Inr w')"
      by (simp add: grows_def record_event_def)
    moreover have "grows is_traversal w' (renameItems k w' p items)"
      by (rule renameItems_grows) (rule Suc.IH)
    ultimately show ?thesis using Inr b by (simp add: grows_step)
  qed
qed

lemma grows_spawned:
  assumes "grows is_traversal w r"
  shows "spawned (final_state r) = spawned w"
proof -
  from assms obtain L where L: "log (final_state r) = log w @ L" "list_all is_traversal L"
    by (auto simp: grows_def)
  have "filter is_spawn L = []"
    using L(2) by (induction L) (auto elim: is_traversal.elims)
  with L(1) show ?thesis by (simp add: spawned_def)
qed

lemma spawned_rmSync [simp]: "spawned (rmSync w p) = spawned w"
  by (simp add: spawned_def rmSync_def record_event_def)

lemma spawned_run: "spawned (final_state (run sp c a w)) = spawned w @ [EvSpawn c a]"
  by (simp add: spawned_def run_def record_event_def Let_def split: prod.splits)

lemma spawned_chdir: "spawned (final_state (chdir w p)) = spawned w"
  by (simp add: spawned_def chdir_def record_event_def Let_def split: option.splits node.splits)

lemma spawned_cpSync: "spawned (final_state (cpSync w p q)) = spawned w"
  by (simp add: spawned_def cpSync_def record_event_def Let_def split: option.splits node.splits)

lemma spawned_renameAll: "spawned (final_state (renameAll k w p)) = spawned w"
  by (rule grows_spawned) (rule renameAll_grows)

lemma spawned_Inr:
  "run sp c a w = Inr w' \<Longrightarrow> spawned w' = spawned w @ [EvSpawn c a]"
  "chdir w p = Inr w' \<Longrightarrow> spawned w' = spawned w"
  "cpSync w p q = Inr w' \<Longrightarrow> spawned w' = spawned w"
  "renameAll k w p = Inr w' \<Longrightarrow> spawned w' = spawned w"
  using spawned_run [of sp c a w] spawned_chdir [of w p] spawned_cpSync [of w p q]
    spawned_renameAll [of k w p]
  by simp_all

lemma spawned_Inl:
  "run sp c a w = Inl x \<Longrightarrow> spawned (snd x) = spawned w @ [EvSpawn c a]"
  "chdir w p = Inl x \<Longrightarrow> spawned (snd x) = spawned w"
  "cpSync w p q = Inl x \<Longrightarrow> spawned (snd x) = spawned w"
  "renameAll k w p = Inl x \<Longrightarrow> spawned (snd x) = spawned w"
  using spawned_run [of sp c a w] spawned_chdir [of w p] spawned_cpSync [of w p q]
    spawned_renameAll [of k w p]
  by simp_all

lemma spawned_publish: "spawned (final_state (publish depth sd w)) = spawned w"
  unfolding publish_def Let_def seq_def
  by (auto simp: spawned_cpSync split: sum.splits dest!: spawned_Inr spawned_Inl)

lemma spawned_checkout:
  "(spawned (final_state (checkout sp sd w0)) = spawned w0 @ take 1 (git_calls sd)
    \<or> spawned (final_state (checkout sp sd w0)) = spawned w0 @ take 2 (git_calls sd)
    \<or> spawned (final_state (checkout sp sd w0)) = spawned w0 @ git_calls sd)
   \<and> (\<forall>w'. checkout sp sd w0 = Inr w' \<longrightarrow> spawned w' = spawned w0 @ git_calls sd)"
  unfolding checkout_def Let_def seq_def git_calls_def
  by (auto simp: spawned_run split: sum.splits dest!: spawned_Inr spawned_Inl)

section \<open>The subprocess invocations\<close>

text \<open>
  Claim C8: the script invokes the version-control program exactly three times: a
  \<^verbatim>\<open>clone\<close> of depth 1 of the repository URL into the cache directory, a
  \<^verbatim>\<open>sparse-checkout set\<close> of the subtree \<^verbatim>\<open>docs\<close>, and a \<^verbatim>\<open>checkout\<close>, in this
  order, and it makes no other invocation. Whatever the subprocesses do and however the
  run ends, the invocations made are the first one, two or three of these; a run that
  reaches its end has made all three.
\<close>

theorem sync_git_invocations:
  "git_calls sd =
     [EvSpawn ''git'' [''clone'', ''--depth'', ''1'', ''--no-checkout'',
        ''https://github.com/vercel/next.js'', path_string (cacheDir sd)],
      EvSpawn ''git'' [''sparse-checkout'', ''set'', ''docs''],
      EvSpawn ''git'' [''checkout'']]
   \<and> (spawned (final_state (sync sp depth sd w0)) = spawned w0 @ take 1 (git_calls sd)
      \<or> spawned (final_state (sync sp depth sd w0)) = spawned w0 @ take 2 (git_calls sd)
      \<or> spawned (final_state (sync sp depth sd w0)) = spawned w0 @ git_calls sd)
   \<and> (\<forall>w'. sync sp depth sd w0 = Inr w' \<longrightarrow> spawned w' = spawned w0 @ git_calls sd)"
proof (cases "checkout sp sd w0")
  case (Inl a)
  with spawned_checkout [of sp sd w0] show ?thesis
    by (simp add: sync_phases git_calls_def clone_args_def)
next
  case (Inr w5)
  with spawned_checkout [of sp sd w0] have "spawned w5 = spawned w0 @ git_calls sd" by simp
  with Inr spawned_publish [of depth sd w5] show ?thesis
    by (auto simp: sync_phases git_calls_def clone_args_def)
qed

theorem sync_git_invocations_witness:
  "spawned (final_state (sync (stub_git upstream_docs (\<lambda>c. exited 0)) 8 [''site'', ''scripts''] start))
     = [EvSpawn ''git'' [''clone'', ''--depth'', ''1'', ''--no-checkout'',
          ''https://github.com/vercel/next.js'', ''/site/.cache/next''],
        EvSpawn ''git'' [''sparse-checkout'', ''set'', ''docs''],
        EvSpawn ''git'' [''checkout'']]"
proof -
  have "\<not> isl (sync (stub_git upstream_docs (\<lambda>c. exited 0)) 8 [''site'', ''scripts''] start)"
    by code_simp
  then obtain w' where
    w': "sync (stub_git upstream_docs (\<lambda>c. exited 0)) 8 [''site'', ''scripts''] start = Inr w'"
    by (cases "sync (stub_git upstream_docs (\<lambda>c. exited 0)) 8 [''site'', ''scripts''] start") simp_all
  have "path_string (cacheDir [''site'', ''scripts'']) = ''/site/.cache/next''"
    by code_simp
  moreover have "spawned start = []" by (simp add: spawned_def start_def)
  ultimately show ?thesis
    using sync_git_invocations [of "[''site'', ''scripts'']"
        "stub_git upstream_docs (\<lambda>c. exited 0)" 8 start] w'
    by simp
qed

section \<open>Failure of a subprocess\<close>

text \<open>\<open>run\<close> ends the process exactly when the result object carries an \<open>error\<close>,
  that is when the program could not be launched. It never looks at \<open>status\<close>.\<close>

lemma run_launch_failure:
  assumes "error (fst (sp c a (cwd w) (fs w))) \<noteq> None"
  shows "run sp c a w =
    Inl (Exit 1, (record_event (EvSpawn c a) w)\<lparr>fs := snd (sp c a (cwd w) (fs w))\<rparr>)"
  using assms by (cases "sp c a (cwd w) (fs w)") (simp add: run_def)

lemma run_status_ignored:
  assumes "error (fst (sp c a (cwd w) (fs w))) = None"
  shows "run sp c a w = Inr ((record_event (EvSpawn c a) w)\<lparr>fs := snd (sp c a (cwd w) (fs w))\<rparr>)"
  using assms by (cases "sp c a (cwd w) (fs w)") (simp add: run_def)

text \<open>When \<^verbatim>\<open>git clone\<close> cannot be launched, the run ends there with exit code 1.\<close>

lemma clone_launch_failure_aborts:
  assumes "error (fst (sp ''git'' (clone_args (cacheDir sd)) (cwd (reset_cache sd w0))
      (fs (reset_cache sd w0)))) \<noteq> None"
  shows "\<exists>w'. sync sp depth sd w0 = Inl (Exit 1, w')
    \<and> log w' = log (reset_cache sd w0) @ [EvSpawn ''git'' (clone_args (cacheDir sd))]"
  using run_launch_failure [of sp "''git''" "clone_args (cacheDir sd)" "reset_cache sd w0", OF assms]
  by (simp add: sync_def reset_cache_def record_event_def)

text \<open>When \<^verbatim>\<open>git clone\<close> runs and leaves no cache directory behind (whatever its exit
  status), \<open>run\<close> returns and the run ends at \<^verbatim>\<open>process.chdir\<close>, with an exception.\<close>

lemma clone_without_directory_aborts:
  assumes "error (fst (sp ''git'' (clone_args (cacheDir sd)) (cwd (reset_cache sd w0))
      (fs (reset_cache sd w0)))) = None"
    and "lookup (snd (sp ''git'' (clone_args (cacheDir sd)) (cwd (reset_cache sd w0))
      (fs (reset_cache sd w0)))) (cacheDir sd) = None"
  shows "\<exists>w'. sync sp depth sd w0 = Inl (Uncaught ENOENT, w')
    \<and> log w' = log (reset_cache sd w0) @
        [EvSpawn ''git'' (clone_args (cacheDir sd)), EvChdir (cacheDir sd)]"
  using run_status_ignored [of sp "''git''" "clone_args (cacheDir sd)" "reset_cache sd w0", OF assms(1)]
    assms(2)
  by (simp add: sync_def reset_cache_def record_event_def chdir_def)

text \<open>
  Claim C1 says that a failure of any of the three invocations, a non-zero exit status
  included, ends the run at once with a non-zero exit code. The code at a concrete
  input: \<^verbatim>\<open>git sparse-checkout set docs\<close> exits with status 129 (as a \<^verbatim>\<open>git\<close> without
  that subcommand does), the other two invocations succeed. \<open>run\<close> returns, the
  \<^verbatim>\<open>checkout\<close> is invoked next, the run goes on to the copy and ends with exit code 0.
\<close>

theorem sparse_checkout_failure_ignored:
  "\<not> isl sparse_failing_run \<and> exit_code sparse_failing_run = 0
   \<and> take 4 (log (final_state sparse_failing_run)) =
       [EvSpawn ''git'' [''clone'', ''--depth'', ''1'', ''--no-checkout'',
          ''https://github.com/vercel/next.js'', ''/site/.cache/next''],
        EvChdir [''site'', ''.cache'', ''next''],
        EvSpawn ''git'' [''sparse-checkout'', ''set'', ''docs''],
        EvSpawn ''git'' [''checkout'']]
   \<and> last (log (final_state sparse_failing_run)) =
       EvCp [''site'', ''.cache'', ''next'', ''docs''] [''site'', ''src'', ''content'', ''docs'', ''docs'']"
  by code_simp

section \<open>Renaming onto a directory above\<close>

text \<open>An entry cannot be renamed onto the directory that holds it, nor onto that
  directory's parent: the target is a directory that is not empty.\<close>

lemma renameSync_onto_parent:
  assumes "lookup (fs w) p = Some (Dir es)" and "map_of es n = Some c"
  shows "\<exists>e. renameSync w (p @ [n]) p = Inl (Uncaught e, record_event (EvRename (p @ [n]) p) w)"
proof (cases "p = []")
  case True
  with assms show ?thesis by (simp add: renameSync_def Let_def lookup_child split: option.splits)
next
  case False
  then have p: "p = butlast p @ [last p]" by simp
  with assms(1) have "lookup (fs w) (butlast p @ [last p]) = Some (Dir es)" by simp
  from lookup_parent [OF this] obtain ps where ps: "lookup (fs w) (butlast p) = Some (Dir ps)"
    by blast
  from assms have c: "lookup (fs w) (p @ [n]) = Some c" by (simp add: lookup_child)
  from assms(2) have "es \<noteq> []" by auto
  with False assms(1) ps c show ?thesis
    by (cases c) (simp_all add: renameSync_def Let_def)
qed

lemma renameSync_onto_grandparent:
  assumes "lookup (fs w) p = Some (Dir es)" and "map_of es n = Some c"
  shows "\<exists>e. renameSync w (p @ [n]) (butlast p) =
     Inl (Uncaught e, record_event (EvRename (p @ [n]) (butlast p)) w)"
proof (cases "p = []")
  case True
  with assms show ?thesis by (simp add: renameSync_def Let_def lookup_child split: option.splits)
next
  case False
  then have p: "p = butlast p @ [last p]" by simp
  with assms(1) have "lookup (fs w) (butlast p @ [last p]) = Some (Dir es)" by simp
  from lookup_parent [OF this] obtain ps where ps: "lookup (fs w) (butlast p) = Some (Dir ps)"
    "map_of ps (last p) = Some (Dir es)"
    by blast
  then have ne: "ps \<noteq> []" by auto
  from assms have c: "lookup (fs w) (p @ [n]) = Some c" by (simp add: lookup_child)
  have np: "\<not> prefix (p @ [n]) (butlast p)"
    by (auto dest: prefix_length_le)
  show ?thesis
  proof (cases "butlast p = []")
    case True
    with c show ?thesis by (simp add: renameSync_def Let_def)
  next
    case b: False
    then have "butlast p = butlast (butlast p) @ [last (butlast p)]" by simp
    with ps(1) have "lookup (fs w) (butlast (butlast p) @ [last (butlast p)]) = Some (Dir ps)" by simp
    from lookup_parent [OF this] obtain qs where "lookup (fs w) (butlast (butlast p)) = Some (Dir qs)"
      by blast
    with b ps ne c np show ?thesis
      by (cases c) (simp_all add: renameSync_def Let_def)
  qed
qed

lemma stripPrefix_digits_hyphen:
  assumes "ds \<noteq> []" and "list_all is_digit ds"
  shows "stripPrefix (ds @ ''-'') = []"
proof -
  from assms have "match_prefix (ds @ ''-'') = Some []"
    unfolding match_prefix_iff by auto
  then show ?thesis by (simp add: stripPrefix_def)
qed

text \<open>
  Claim C10: for the name \<open>123-\<close> (digits and one trailing hyphen), \<open>stripPrefix\<close>
  returns the empty string; the new path \<^verbatim>\<open>path.join(dirPath, "")\<close> is the directory
  itself; it differs from the old path, so the guard passes; and \<open>renameAll\<close> asks the
  file system to rename the entry onto the directory that holds it. (The file system
  refuses, and the exception ends the run.)
\<close>

theorem rename_onto_parent_attempted:
  "stripPrefix ''123-'' = []
   \<and> path_join dirPath (stripPrefix ''123-'') = dirPath
   \<and> path_join dirPath ''123-'' \<noteq> path_join dirPath (stripPrefix ''123-'')
   \<and> (lookup (fs w) dirPath = Some (Dir ((''123-'', c) # es)) \<longrightarrow>
        (\<exists>e. renameAll (Suc k) w dirPath =
           Inl (Uncaught e,
                w\<lparr>log := log w @ [EvReaddir dirPath, EvRename (dirPath @ [''123-'']) dirPath]\<rparr>)))"
proof -
  have s: "stripPrefix ''123-'' = []"
    by (simp add: stripPrefix_def match_prefix_def is_digit_def)
  have j: "path_join dirPath ''123-'' = dirPath @ [''123-'']"
    by (simp add: path_join_valid valid_name_def)
  have "\<exists>e. renameAll (Suc k) w dirPath =
           Inl (Uncaught e,
                w\<lparr>log := log w @ [EvReaddir dirPath, EvRename (dirPath @ [''123-'']) dirPath]\<rparr>)"
    if l: "lookup (fs w) dirPath = Some (Dir ((''123-'', c) # es))"
  proof -
    let ?w1 = "record_event (EvReaddir dirPath) w"
    have "lookup (fs ?w1) dirPath = Some (Dir ((''123-'', c) # es))"
      using l by (simp add: record_event_def)
    from renameSync_onto_parent [OF this, of "''123-''" c]
    obtain e where "renameSync ?w1 (dirPath @ [''123-'']) dirPath =
        Inl (Uncaught e, record_event (EvRename (dirPath @ [''123-'']) dirPath) ?w1)"
      by auto
    with l show ?thesis
      by (simp add: readdirSync_def renameItems_Cons s j path_join_Nil record_event_def)
  qed
  with s j show ?thesis by (simp add: path_join_Nil)
qed

theorem rename_onto_parent_attempted_witness:
  "\<exists>e. renameAll (Suc 0) \<lparr>fs = Dir [(''d'', Dir [(''123-'', File ''x'')])], cwd = [], log = []\<rparr> [''d''] =
     Inl (Uncaught e,
          \<lparr>fs = Dir [(''d'', Dir [(''123-'', File ''x'')])], cwd = [],
           log = [EvReaddir [''d''], EvRename [''d'', ''123-''] [''d'']]\<rparr>)"
  using rename_onto_parent_attempted [of "[''d'']"
      "\<lparr>fs = Dir [(''d'', Dir [(''123-'', File ''x'')])], cwd = [], log = []\<rparr>" "File ''x''" "[]" 0]
  by simp

section \<open>How the file system operations compose\<close>

lemma map_of_map_entry:
  "map_of (map_entry s f es) k = (if k = s then map_option f (map_of es s) else map_of es k)"
  by (induction es) auto

lemma map_fst_map_entry [simp]: "map fst (map_entry s f es) = map fst es"
  by (induction es) auto

lemma map_entry_cong:
  "map_of es s = Some d \<Longrightarrow> f d = g d \<Longrightarrow> map_entry s f es = map_entry s g es"
  by (induction es) (auto split: if_splits)

lemma map_entry_id: "map_of es s = Some d \<Longrightarrow> f d = d \<Longrightarrow> map_entry s f es = es"
  by (induction es) (auto split: if_splits)

lemma map_entry_absent: "map_of es s = None \<Longrightarrow> map_entry s f es = es"
  by (induction es) (auto split: if_splits)

lemma map_entry_twice: "map_entry s g (map_entry s f es) = map_entry s (\<lambda>c. g (f c)) es"
  by (induction es) auto

lemma map_entry_split:
  "s \<notin> fst ` set A \<Longrightarrow> map_entry s f (A @ (s, c) # R) = A @ (s, f c) # R"
  by (induction A) auto

lemma map_of_split:
  "s \<notin> fst ` set A \<Longrightarrow> map_of (A @ (s, c) # R) s = Some c"
  by (induction A) auto

lemma map_of_None_iff: "map_of es s = None \<longleftrightarrow> s \<notin> fst ` set es"
  by (simp add: map_of_eq_None_iff)

lemma map_of_filter_same [simp]: "map_of (filter (\<lambda>e. fst e \<noteq> s) es) s = None"
  by (induction es) auto

lemma map_of_filter_other: "k \<noteq> s \<Longrightarrow> map_of (filter (\<lambda>e. fst e \<noteq> s) es) k = map_of es k"
  by (induction es) auto

lemma map_of_snoc: "map_of (es @ [(s, x)]) k = (case map_of es k of None \<Rightarrow> (if k = s then Some x else None) | Some c \<Rightarrow> Some c)"
  by (induction es) auto

lemma lookup_put_same: "lookup t p \<noteq> None \<Longrightarrow> lookup (put p x t) p = Some x"
proof (induction p arbitrary: t)
  case Nil
  show ?case by simp
next
  case (Cons s p)
  then show ?case
    by (cases t) (auto simp: map_of_map_entry split: option.splits)
qed

lemma put_same: "lookup t p = Some x \<Longrightarrow> put p x t = t"
proof (induction p arbitrary: t)
  case Nil
  then show ?case by simp
next
  case (Cons s p)
  then show ?case
    by (cases t) (auto simp: map_entry_id split: option.splits)
qed

lemma put_append: "lookup t p = Some c \<Longrightarrow> put (p @ q) x t = put p (put q x c) t"
proof (induction p arbitrary: t)
  case Nil
  then show ?case by simp
next
  case (Cons s p)
  then show ?case
    by (cases t) (auto split: option.splits intro: map_entry_cong)
qed

lemma remove_append:
  "lookup t p = Some c \<Longrightarrow> q \<noteq> [] \<Longrightarrow> remove (p @ q) t = put p (remove q c) t"
proof (induction p arbitrary: t)
  case Nil
  then show ?case by simp
next
  case (Cons s p)
  from Cons.prems obtain es d where t: "t = Dir es" "map_of es s = Some d" "lookup d p = Some c"
    by (cases t) (auto split: option.splits)
  from Cons.prems(2) obtain v va where pq: "p @ q = v # va" by (cases "p @ q") auto
  have "remove (p @ q) d = put p (remove q c) d" by (rule Cons.IH [OF t(3) Cons.prems(2)])
  then have "map_entry s (\<lambda>c. remove (v # va) c) es = map_entry s (\<lambda>d. put p (remove q c) d) es"
    using t(2) pq by (intro map_entry_cong) auto
  with t pq show ?case by simp
qed

lemma put_put: "lookup t p \<noteq> None \<Longrightarrow> put p y (put p x t) = put p y t"
proof (induction p arbitrary: t)
  case Nil
  show ?case by simp
next
  case (Cons s p)
  from Cons.prems obtain es d where t: "t = Dir es" "map_of es s = Some d" "lookup d p \<noteq> None"
    by (cases t) (auto split: option.splits)
  have "map_entry s (\<lambda>c. put p y (put p x c)) es = map_entry s (\<lambda>c. put p y c) es"
    using t(2) Cons.IH [OF t(3)] by (intro map_entry_cong) auto
  with t show ?case by (simp add: map_of_map_entry map_entry_twice)
qed

lemma lookup_remove_same: "p \<noteq> [] \<Longrightarrow> lookup (remove p t) p = None"
proof (induction p t rule: remove.induct)
  case (3 s es)
  show ?case by simp
next
  case (4 s v va es)
  then show ?case by (auto simp: map_of_map_entry split: option.splits)
qed simp_all

lemma lookup_remove_diverge:
  "a \<noteq> b \<Longrightarrow> lookup (remove (r @ b # q) t) (r @ a # p) = lookup t (r @ a # p)"
proof (induction r arbitrary: t)
  case Nil
  then show ?case
    by (cases t; cases q) (auto simp: map_of_map_entry map_of_filter_other)
next
  case (Cons s r)
  obtain v va where "r @ b # q = v # va" by (cases "r @ b # q") auto
  with Cons show ?case
    by (cases t) (auto simp: map_of_map_entry split: option.splits)
qed

lemma lookup_put_child:
  "lookup t q = Some (Dir es) \<Longrightarrow> lookup (put (q @ [s]) x t) (q @ [s]) = Some x"
proof -
  assume l: "lookup t q = Some (Dir es)"
  have "put (q @ [s]) x t = put q (put [s] x (Dir es)) t" by (rule put_append [OF l])
  moreover have "lookup (put q (put [s] x (Dir es)) t) q = Some (put [s] x (Dir es))"
    using l by (simp add: lookup_put_same)
  moreover have "lookup (put [s] x (Dir es)) [s] = Some x"
    by (auto simp: map_of_map_entry map_add_def)
  ultimately show ?thesis by (simp add: lookup_append)
qed

lemma mkdirp_dir: "mkdirp q t0 = Some t \<Longrightarrow> \<exists>es. lookup t q = Some (Dir es)"
proof (induction q t0 arbitrary: t rule: mkdirp.induct)
  case (3 s p es)
  show ?case
  proof (cases "map_of es s")
    case None
    have "\<exists>ds. lookup (mkchain p) p = Some (Dir ds)" by (induction p) auto
    with 3 None show ?thesis by (auto simp: map_add_def)
  next
    case (Some c)
    with "3.prems" obtain c' where c': "mkdirp p c = Some c'" "t = Dir (map_entry s (\<lambda>_. c') es)"
      by (auto split: option.splits)
    from "3.IH" [OF Some c'(1)] c'(2) Some show ?thesis
      by (auto simp: map_of_map_entry)
  qed
qed auto

lemma mkdirp_child_absent:
  "mkdirp q t0 = Some t \<Longrightarrow> lookup t0 (q @ [s]) = None \<Longrightarrow> lookup t (q @ [s]) = None"
proof (induction q t0 arbitrary: t rule: mkdirp.induct)
  case (3 x p es)
  show ?case
  proof (cases "map_of es x")
    case None
    have "lookup (mkchain p) (p @ [s]) = None" by (induction p) auto
    with 3 None show ?thesis by (auto simp: map_add_def)
  next
    case (Some c)
    with "3.prems" obtain c' where c': "mkdirp p c = Some c'" "t = Dir (map_entry x (\<lambda>_. c') es)"
      by (auto split: option.splits)
    from "3.prems"(2) Some have "lookup c (p @ [s]) = None" by simp
    from "3.IH" [OF Some c'(1) this] c'(2) Some show ?thesis
      by (auto simp: map_of_map_entry)
  qed
qed auto

section \<open>Normalization of a tree without collisions\<close>

lemma seq_Inr_iff: "seq r f = Inr y \<longleftrightarrow> (\<exists>x. r = Inr x \<and> f x = Inr y)"
  by (cases r) simp_all

lemma put_child:
  assumes "lookup t p = Some (Dir (A @ (n, c) # R))" and "n \<notin> fst ` set A"
  shows "put (p @ [n]) x t = put p (Dir (A @ (n, x) # R)) t"
proof -
  have "put [n] x (Dir (A @ (n, c) # R)) = Dir (A @ (n, x) # R)"
    using assms(2) by (simp add: map_of_split map_entry_split)
  with put_append [OF assms(1), of "[n]" x] show ?thesis by simp
qed

lemma filter_split:
  assumes "distinct (map fst (A @ (n, c) # R))"
  shows "filter (\<lambda>e. fst e \<noteq> n) (A @ (n, c) # R) = A @ R"
proof -
  have "filter (\<lambda>e. fst e \<noteq> n) A = A" "filter (\<lambda>e. fst e \<noteq> n) R = R"
    using assms by (auto simp: filter_id_conv)
  then show ?thesis by simp
qed

lemma move_child:
  assumes "lookup t p = Some (Dir (A @ (n, c) # R))"
    and "distinct (map fst (A @ (n, c) # R))"
    and "n' \<notin> fst ` set (A @ (n, c) # R)"
  shows "put (p @ [n']) c (remove (p @ [n]) t) = put p (Dir (A @ R @ [(n', c)])) t"
proof -
  have r: "remove (p @ [n]) t = put p (Dir (A @ R)) t"
    using remove_append [OF assms(1), of "[n]"] filter_split [OF assms(2)] by simp
  have l: "lookup (put p (Dir (A @ R)) t) p = Some (Dir (A @ R))"
    using assms(1) by (simp add: lookup_put_same)
  have "map_of (A @ R) n' = None"
    using assms(3) by (simp add: map_of_None_iff image_Un)
  then have "put [n'] c (Dir (A @ R)) = Dir (A @ R @ [(n', c)])" by simp
  with put_append [OF l, of "[n']" c] have
    "put (p @ [n']) c (put p (Dir (A @ R)) t) = put p (Dir (A @ R @ [(n', c)])) (put p (Dir (A @ R)) t)"
    by simp
  also have "\<dots> = put p (Dir (A @ R @ [(n', c)])) t"
    using assms(1) by (simp add: put_put)
  finally show ?thesis by (simp add: r)
qed

lemma renameSync_in_dir:
  assumes "lookup (fs w) p = Some (Dir (A @ (n, c) # R))"
    and "distinct (map fst (A @ (n, c) # R))"
    and "n' \<notin> fst ` set (A @ (n, c) # R)"
  shows "renameSync w (p @ [n]) (p @ [n']) =
    Inr ((record_event (EvRename (p @ [n]) (p @ [n'])) w)\<lparr>fs := put p (Dir (A @ R @ [(n', c)])) (fs w)\<rparr>)"
proof -
  from assms(2) have nA: "n \<notin> fst ` set A" by auto
  have "map_of (A @ (n, c) # R) n = Some c" using nA by (rule map_of_split)
  with lookup_child [OF assms(1), of n] have old: "lookup (fs w) (p @ [n]) = Some c"
    by simp
  have "map_of (A @ (n, c) # R) n' = None" by (rule map_of_None_iff [THEN iffD2, OF assms(3)])
  with lookup_child [OF assms(1), of n'] have new: "lookup (fs w) (p @ [n']) = None"
    by simp
  from assms(3) have ne: "n' \<noteq> n" by auto
  show ?thesis
    using old new ne assms(1) move_child [OF assms]
    by (simp add: renameSync_def Let_def)
qed

lemma stripPrefix_set: "set (stripPrefix n) \<subseteq> set n"
  using stripPrefix_cases [of n] match_prefix_suffix [of n]
  by (auto dest: set_mono_suffix)

lemma norm_tree_file: "\<not> is_dir c \<Longrightarrow> norm_tree c = c"
  by (cases c) simp_all

lemma renameItems_norm:
  assumes IH: "\<And>w p t w'. lookup (fs w) p = Some t \<Longrightarrow> wf_node t \<Longrightarrow> cf_node t
      \<Longrightarrow> renameAll k w p = Inr w' \<Longrightarrow> fs w' = put p (norm_tree t) (fs w)"
  shows "lookup (fs w) p = Some (Dir (A @ rest @ B))
    \<Longrightarrow> distinct (map fst (A @ rest @ B))
    \<Longrightarrow> distinct (map (\<lambda>e. stripPrefix (fst e)) rest)
    \<Longrightarrow> (\<forall>e \<in> set rest. stripPrefix (fst e) \<noteq> fst e \<longrightarrow> stripPrefix (fst e) \<notin> fst ` set (A @ rest @ B))
    \<Longrightarrow> (\<forall>e \<in> set rest. valid_name (fst e) \<and> wf_node (snd e) \<and> cf_node (snd e))
    \<Longrightarrow> renameItems k w p (map (\<lambda>e. (fst e, is_dir (snd e))) rest) = Inr w'
    \<Longrightarrow> fs w' = put p (Dir (A @ kept rest @ B @ moved rest)) (fs w)"
proof (induction rest arbitrary: w A B)
  case Nil
  then show ?case by (simp add: put_same)
next
  case (Cons e rest)
  obtain n c where e: "e = (n, c)" by (cases e)
  let ?n' = "stripPrefix n"
  have l: "lookup (fs w) p = Some (Dir (A @ (n, c) # rest @ B))"
    using Cons.prems(1) by (simp add: e)
  have d: "distinct (map fst (A @ (n, c) # rest @ B))"
    using Cons.prems(2) by (simp add: e)
  from d have nA: "n \<notin> fst ` set A" by auto
  have vn: "valid_name n" and wc: "wf_node c" and cc: "cf_node c"
    using Cons.prems(5) by (simp_all add: e)
  have jn: "path_join p n = p @ [n]" by (rule path_join_valid [OF vn])
  have "map_of (A @ (n, c) # rest @ B) n = Some c" using nA by (rule map_of_split)
  with lookup_child [OF l, of n] have lc: "lookup (fs w) (p @ [n]) = Some c" by simp
  from Cons.prems(6) obtain w1 w2 where
    r1: "(if p @ [n] \<noteq> path_join p ?n' then renameSync w (p @ [n]) (path_join p ?n') else Inr w) = Inr w1"
    and r2: "(if is_dir c then renameAll k w1 (path_join p ?n') else Inr w1) = Inr w2"
    and r3: "renameItems k w2 p (map (\<lambda>e. (fst e, is_dir (snd e))) rest) = Inr w'"
    by (auto simp: e renameItems_Cons seq_Inr_iff jn cong: if_cong)
  have step: "\<exists>A' B'. fs w2 = put p (Dir (A' @ rest @ B')) (fs w)
      \<and> distinct (map fst (A' @ rest @ B'))
      \<and> (\<forall>e \<in> set rest. stripPrefix (fst e) \<noteq> fst e \<longrightarrow> stripPrefix (fst e) \<notin> fst ` set (A' @ rest @ B'))
      \<and> A' @ kept rest @ B' @ moved rest = A @ kept (e # rest) @ B @ moved (e # rest)"
  proof (cases "?n' = n")
    case True
    with r1 jn have w1: "w1 = w" by simp
    have "fs w2 = put p (Dir (A @ (n, norm_tree c) # rest @ B)) (fs w)"
    proof (cases "is_dir c")
      case dir: True
      with r2 w1 True jn have "renameAll k w (p @ [n]) = Inr w2" by simp
      from IH [OF lc wc cc this] show ?thesis by (simp add: put_child [OF l nA])
    next
      case False
      with r2 w1 have "w2 = w" by simp
      with False l show ?thesis by (simp add: norm_tree_file put_same)
    qed
    moreover have "\<forall>e \<in> set rest. stripPrefix (fst e) \<noteq> fst e \<longrightarrow>
        stripPrefix (fst e) \<notin> fst ` set ((A @ [(n, norm_tree c)]) @ rest @ B)"
      using Cons.prems(4) by (auto simp: e)
    ultimately show ?thesis
      using d True
      by (intro exI [of _ "A @ [(n, norm_tree c)]"] exI [of _ B]) (simp add: e)
  next
    case False
    have fresh: "?n' \<notin> fst ` set (A @ (n, c) # rest @ B)"
      using Cons.prems(4) False by (simp add: e)
    have "CHR ''/'' \<notin> set ?n'"
      using vn stripPrefix_set [of n] by (auto simp: valid_name_def )
    have "length (p @ [n]) \<noteq> length (butlast p)" by simp
    then have "p @ [n] \<noteq> butlast p" by metis
    then have neq: "p @ [n] \<noteq> p" "p @ [n] \<noteq> butlast p" by simp_all
    from path_join_cases [OF \<open>CHR ''/'' \<notin> set ?n'\<close>, of p]
    have vj: "valid_name ?n' \<and> path_join p ?n' = p @ [?n']"
    proof (elim disjE)
      assume "path_join p ?n' = p"
      with r1 neq renameSync_onto_parent [OF l \<open>map_of (A @ (n, c) # rest @ B) n = Some c\<close>]
      show ?thesis by auto
    next
      assume "path_join p ?n' = butlast p"
      with r1 neq renameSync_onto_grandparent [OF l \<open>map_of (A @ (n, c) # rest @ B) n = Some c\<close>]
      show ?thesis by auto
    qed
    with r1 False renameSync_in_dir [OF l d fresh]
    have w1: "fs w1 = put p (Dir (A @ (rest @ B) @ [(?n', c)])) (fs w)"
      by auto
    have l1: "lookup (fs w1) p = Some (Dir ((A @ rest @ B) @ (?n', c) # []))"
      using l by (simp add: w1 lookup_put_same)
    have nAB: "?n' \<notin> fst ` set (A @ rest @ B)" using fresh by auto
    have "fs w2 = put p (Dir (A @ rest @ B @ [(?n', norm_tree c)])) (fs w)"
    proof (cases "is_dir c")
      case True
      with r2 vj have r: "renameAll k w1 (p @ [?n']) = Inr w2" by simp
      have "map_of ((A @ rest @ B) @ (?n', c) # []) ?n' = Some c" using nAB by (rule map_of_split)
      with lookup_child [OF l1, of ?n'] have "lookup (fs w1) (p @ [?n']) = Some c" by simp
      from IH [OF this wc cc r]
      have "fs w2 = put p (Dir ((A @ rest @ B) @ (?n', norm_tree c) # [])) (fs w1)"
        by (simp only: put_child [OF l1 nAB])
      then show ?thesis using l by (simp add: w1 put_put)
    next
      case False
      with r2 have "w2 = w1" by simp
      with False w1 show ?thesis by (simp add: norm_tree_file)
    qed
    moreover have "distinct (map fst (A @ rest @ B @ [(?n', norm_tree c)]))"
      using d fresh by auto
    moreover have "\<forall>e \<in> set rest. stripPrefix (fst e) \<noteq> fst e \<longrightarrow>
        stripPrefix (fst e) \<notin> fst ` set (A @ rest @ B @ [(?n', norm_tree c)])"
    proof (intro ballI impI)
      fix x assume x: "x \<in> set rest" "stripPrefix (fst x) \<noteq> fst x"
      with Cons.prems(4) have "stripPrefix (fst x) \<notin> fst ` set (A @ (e # rest) @ B)" by simp
      moreover from Cons.prems(3) x(1) have "stripPrefix (fst x) \<noteq> ?n'"
        by (auto simp: e image_iff)
      ultimately show "stripPrefix (fst x) \<notin> fst ` set (A @ rest @ B @ [(?n', norm_tree c)])"
        by (simp add: image_Un)
    qed
    ultimately show ?thesis
      using False
      by (intro exI [of _ A] exI [of _ "B @ [(?n', norm_tree c)]"]) (simp add: e)
  qed
  then obtain A' B' where s: "fs w2 = put p (Dir (A' @ rest @ B')) (fs w)"
    "distinct (map fst (A' @ rest @ B'))"
    "\<forall>e \<in> set rest. stripPrefix (fst e) \<noteq> fst e \<longrightarrow> stripPrefix (fst e) \<notin> fst ` set (A' @ rest @ B')"
    "A' @ kept rest @ B' @ moved rest = A @ kept (e # rest) @ B @ moved (e # rest)"
    by blast
  have l2: "lookup (fs w2) p = Some (Dir (A' @ rest @ B'))"
    using l by (simp add: s(1) lookup_put_same)
  have "fs w' = put p (Dir (A' @ kept rest @ B' @ moved rest)) (fs w2)"
    using Cons.prems(3,5) by (intro Cons.IH [OF l2 s(2) _ s(3) _ r3]) simp_all
  then show ?case using l by (simp only: s(4) s(1)) (simp add: put_put)
qed

lemma renameAll_norm:
  "lookup (fs w) p = Some t \<Longrightarrow> wf_node t \<Longrightarrow> cf_node t \<Longrightarrow> renameAll k w p = Inr w'
    \<Longrightarrow> fs w' = put p (norm_tree t) (fs w)"
proof (induction k arbitrary: w p t w')
  case 0
  then show ?case by simp
next
  case (Suc k)
  from Suc.prems(4) obtain items w1 where rd: "readdirSync w p = Inr (items, w1)"
    and ri: "renameItems k w1 p items = Inr w'"
    by (auto split: sum.splits)
  from readdirSync_Inr [OF rd] Suc.prems(1) obtain es where
    t: "t = Dir es" and w1: "w1 = record_event (EvReaddir p) w"
    and items: "items = map (\<lambda>e. (fst e, is_dir (snd e))) es"
    by auto
  have l1: "lookup (fs w1) p = Some (Dir ([] @ es @ []))"
    using Suc.prems(1) by (simp add: t w1 record_event_def)
  have "fs w' = put p (Dir ([] @ kept es @ [] @ moved es)) (fs w1)"
  proof (rule renameItems_norm [OF Suc.IH l1])
    show "renameItems k w1 p (map (\<lambda>e. (fst e, is_dir (snd e))) es) = Inr w'"
      using ri items by simp
  qed (use Suc.prems(2,3) in \<open>auto simp: t cf_names_def distinct_map comp_def\<close>)
  then show ?case by (simp add: t w1 record_event_def)
qed

lemma set_kept_moved:
  "set (kept es) \<union> set (moved es) = (\<lambda>e. (stripPrefix (fst e), norm_tree (snd e))) ` set es"
  by (induction es) auto

lemma paths_of_norm_tree: "paths_of (norm_tree t) = map stripPrefix ` paths_of t"
proof (induction t)
  case (File c)
  show ?case by simp
next
  case (Dir es)
  have IH: "paths_of (norm_tree (snd e)) = map stripPrefix ` paths_of (snd e)" if "e \<in> set es" for e
    using Dir [OF that, of "snd e"] by (cases e) simp
  have "paths_of (norm_tree (Dir es)) =
      (\<Union>e' \<in> set (kept es) \<union> set (moved es). insert [fst e'] ((#) (fst e') ` paths_of (snd e')))"
    by simp
  also have "\<dots> = (\<Union>e \<in> set es. insert [stripPrefix (fst e)]
      ((#) (stripPrefix (fst e)) ` paths_of (norm_tree (snd e))))"
    by (simp only: set_kept_moved) simp
  also have "\<dots> = (\<Union>e \<in> set es. map stripPrefix ` insert [fst e] ((#) (fst e) ` paths_of (snd e)))"
    by (rule SUP_cong [OF refl]) (simp add: IH image_image)
  also have "\<dots> = map stripPrefix ` paths_of (Dir es)"
    by (simp add: image_UN)
  finally show ?case .
qed

lemma kept_moved_keys:
  "fst ` set (kept es) \<subseteq> (\<lambda>e. stripPrefix (fst e)) ` set es"
  "fst ` set (moved es) \<subseteq> (\<lambda>e. stripPrefix (fst e)) ` set es"
  by (induction es) auto

lemma kept_moved_distinct:
  assumes "distinct (map (\<lambda>e. stripPrefix (fst e)) es)"
  shows "distinct (map fst (kept es @ moved es))"
proof -
  have "distinct (map fst (kept es)) \<and> distinct (map fst (moved es))
      \<and> fst ` set (kept es) \<inter> fst ` set (moved es) = {}"
    using assms
  proof (induction es)
    case Nil
    show ?case by simp
  next
    case (Cons e es)
    from Cons.prems have n: "stripPrefix (fst e) \<notin> (\<lambda>e. stripPrefix (fst e)) ` set es"
      and d: "distinct (map (\<lambda>e. stripPrefix (fst e)) es)"
      by auto
    from n kept_moved_keys [of es] have
      "stripPrefix (fst e) \<notin> fst ` set (kept es)" "stripPrefix (fst e) \<notin> fst ` set (moved es)"
      by blast+
    with Cons.IH [OF d] show ?case
      by (cases "stripPrefix (fst e) = fst e") simp_all
  qed
  then show ?thesis by auto
qed

lemma map_of_kept_moved:
  assumes "distinct (map (\<lambda>e. stripPrefix (fst e)) es)" and "(s, d) \<in> set es"
  shows "map_of (kept es @ moved es) (stripPrefix s) = Some (norm_tree d)"
proof -
  have "(stripPrefix s, norm_tree d) \<in> set (kept es) \<union> set (moved es)"
    unfolding set_kept_moved using assms(2) by force
  then have "(stripPrefix s, norm_tree d) \<in> set (kept es @ moved es)" by simp
  with kept_moved_distinct [OF assms(1)] show ?thesis by (rule map_of_is_SomeI)
qed

lemma lookup_norm_tree:
  "cf_node t \<Longrightarrow> lookup t q = Some c \<Longrightarrow> lookup (norm_tree t) (map stripPrefix q) = Some (norm_tree c)"
proof (induction q arbitrary: t)
  case Nil
  then show ?case by simp
next
  case (Cons s q)
  from Cons.prems(2) obtain es d where t: "t = Dir es" "map_of es s = Some d" "lookup d q = Some c"
    by (cases t) (auto split: option.splits)
  from t(2) have m: "(s, d) \<in> set es" by (rule map_of_SomeD)
  with Cons.prems(1) have cd: "cf_node d" by (auto simp: t(1))
  from Cons.prems(1) have "distinct (map (\<lambda>e. stripPrefix (fst e)) es)"
    by (simp add: t(1) cf_names_def comp_def)
  from map_of_kept_moved [OF this m] Cons.IH [OF cd t(3)] show ?case
    by (simp add: t(1))
qed

lemma script_paths:
  "dirname sd = butlast sd"
  "cacheDir sd = butlast sd @ [''.cache'', ''next'']"
  "docsDir sd = butlast sd @ [''.cache'', ''next'', ''docs'']"
  "docsPath sd = butlast sd @ [''src'', ''content'', ''docs'', ''docs'']"
  by (simp_all add: dirname_def cacheDir_def docsDir_def docsPath_def path_join_def path_step_def)

lemma publish_result:
  assumes "publish depth sd w5 = Inr w'" and "lookup (fs w5) (docsDir sd) = Some src"
    and "wf_node src" and "cf_node src"
  shows "lookup (fs w') (docsPath sd) = Some (norm_tree src)"
proof -
  let ?D = "docsDir sd" and ?P = "docsPath sd"
  let ?Q = "butlast sd @ [''src'', ''content'', ''docs'']"
  have P: "?P = ?Q @ [''docs'']" and bl: "butlast ?P = ?Q"
    by (simp_all add: script_paths butlast_append)
  define w7 where "w7 w6 = (if existsSync w6 ?P then rmSync w6 ?P else w6)" for w6
  from assms(1) obtain w6 where r: "renameAll depth w5 ?D = Inr w6"
    and c: "cpSync (w7 w6) ?D ?P = Inr w'"
    by (auto simp: publish_def seq_Inr_iff Let_def w7_def)
  have "fs w6 = put ?D (norm_tree src) (fs w5)" by (rule renameAll_norm [OF assms(2-4) r])
  with assms(2) have l6: "lookup (fs w6) ?D = Some (norm_tree src)"
    by (simp add: lookup_put_same)
  have "lookup (remove ?P t) ?D = lookup t ?D" for t
    using lookup_remove_diverge [of "''.cache''" "''src''" "butlast sd" "[''content'', ''docs'', ''docs'']" t
        "[''next'', ''docs'']"]
    by (simp add: script_paths)
  with l6 have l7: "lookup (fs (w7 w6)) ?D = Some (norm_tree src)"
    by (simp add: w7_def rmSync_def record_event_def)
  have "?P \<noteq> []" by (simp add: script_paths)
  then have n7: "lookup (fs (w7 w6)) ?P = None"
    by (simp add: w7_def rmSync_def record_event_def existsSync_def lookup_remove_same)
  have np: "\<not> prefix ?D ?P" by (simp add: script_paths)
  from c l7 np obtain t where m: "mkdirp ?Q (fs (w7 w6)) = Some t"
    by (auto simp: cpSync_def Let_def bl split: option.splits)
  from mkdirp_child_absent [OF m, of "''docs''"] n7 have a: "lookup t ?P = None" by (simp add: P)
  from c l7 np m a have "fs w' = put ?P (norm_tree src) t"
    by (auto simp: cpSync_def Let_def bl)
  moreover from mkdirp_dir [OF m] obtain es where "lookup t ?Q = Some (Dir es)" by blast
  ultimately show ?thesis
    using lookup_put_child [of t ?Q es "''docs''" "norm_tree src"] by (simp add: P)
qed

section \<open>The destination after a successful run\<close>

text \<open>
  Claim C6, as stated: after a successful run the destination is exactly the image of
  the checked-out subtree under \<open>stripPrefix\<close> applied to every path segment. It
  fails when names collide. In \<open>colliding_docs\<close>, \<open>1-2-a\<close> is renamed onto the file
  \<open>2-a\<close>, which the loop then renames to \<open>a\<close>: the destination has no \<open>2-a\<close>,
  and its \<open>a\<close> holds the bytes of \<open>1-2-a\<close>. The directory \<open>1-b\<close> is renamed onto the
  empty directory \<open>b\<close> and normalized, and normalized a second time when the loop
  reaches the entry \<open>b\<close> of its listing: the destination has \<open>b/x\<close>, which is the
  segment-wise image of no source path (that of \<open>1-b/1-2-x\<close> is \<open>b/2-x\<close>).
\<close>

theorem sync_destination_not_image:
  "\<not> isl colliding_run
   \<and> lookup (fs (final_state (checkout (stub_git colliding_docs (\<lambda>c. exited 0)) [''site'', ''scripts''] start)))
        (docsDir [''site'', ''scripts'']) = Some colliding_docs
   \<and> lookup (fs (final_state colliding_run)) (docsPath [''site'', ''scripts'']) =
        Some (Dir [(''b'', Dir [(''x'', File ''x'')]), (''a'', File ''one'')])
   \<and> paths_of (Dir [(''b'', Dir [(''x'', File ''x'')]), (''a'', File ''one'')]) \<noteq>
        map stripPrefix ` paths_of colliding_docs
   \<and> [''b'', ''x''] \<in> paths_of (Dir [(''b'', Dir [(''x'', File ''x'')]), (''a'', File ''one'')])
   \<and> [''b'', ''x''] \<notin> map stripPrefix ` paths_of colliding_docs
   \<and> [''2-a''] \<in> map stripPrefix ` paths_of colliding_docs
   \<and> [''2-a''] \<notin> paths_of (Dir [(''b'', Dir [(''x'', File ''x'')]), (''a'', File ''one'')])"
  by code_simp

text \<open>
  Claim C6, amended: when no directory of the checked-out subtree has a collision
  (\<open>cf_node\<close>), a successful run leaves at the destination exactly the normalized
  image \<open>norm_tree\<close> of that subtree. Its paths are the paths of the source with
  \<open>stripPrefix\<close> applied to every segment, and what lies at the image of a source path
  is the image of what lies at the source path (for a file: the same bytes). Nothing of
  the old destination is left.
\<close>

theorem sync_destination_normalized:
  assumes "checkout sp sd w0 = Inr w5" and "lookup (fs w5) (docsDir sd) = Some src"
    and "wf_node src" and "cf_node src" and "sync sp depth sd w0 = Inr w'"
  shows "lookup (fs w') (docsPath sd) = Some (norm_tree src)
    \<and> paths_of (norm_tree src) = map stripPrefix ` paths_of src
    \<and> (\<forall>q c. lookup src q = Some c \<longrightarrow> lookup (norm_tree src) (map stripPrefix q) = Some (norm_tree c))"
proof -
  from assms(1,5) have "publish depth sd w5 = Inr w'" by (simp add: sync_phases)
  from publish_result [OF this assms(2-4)] paths_of_norm_tree [of src] lookup_norm_tree [OF assms(4)]
  show ?thesis by blast
qed

theorem sync_destination_normalized_witness:
  "lookup (fs (final_state (sync (stub_git upstream_docs (\<lambda>c. exited 0)) 8 [''site'', ''scripts''] start)))
     (docsPath [''site'', ''scripts'']) =
   Some (Dir [(''index.mdx'', File ''docs''),
              (''app'', Dir [(''index.mdx'', File ''app''),
                 (''getting-started'', Dir [(''installation.mdx'', File ''install'')])])])"
proof -
  let ?sp = "stub_git upstream_docs (\<lambda>c. exited 0)" and ?sd = "[''site'', ''scripts'']"
  have "\<not> isl (checkout ?sp ?sd start)" by code_simp
  then have c: "checkout ?sp ?sd start = Inr (final_state (checkout ?sp ?sd start))"
    by (cases "checkout ?sp ?sd start") simp_all
  have l: "lookup (fs (final_state (checkout ?sp ?sd start))) (docsDir ?sd) = Some upstream_docs"
    by code_simp
  have wf: "wf_node upstream_docs" by code_simp
  have cf: "cf_node upstream_docs" by code_simp
  have "\<not> isl (sync ?sp 8 ?sd start)" by code_simp
  then have s: "sync ?sp 8 ?sd start = Inr (final_state (sync ?sp 8 ?sd start))"
    by (cases "sync ?sp 8 ?sd start") simp_all
  have n: "norm_tree upstream_docs =
      Dir [(''index.mdx'', File ''docs''),
           (''app'', Dir [(''index.mdx'', File ''app''),
              (''getting-started'', Dir [(''installation.mdx'', File ''install'')])])]"
    by code_simp
  from sync_destination_normalized [OF c l wf cf s] show ?thesis
    by (simp only: n)
qed

section \<open>The order of renames and recursion\<close>




















section \<open>A failed clone\<close>

text \<open>
  Claim C2: if the clone fails (the remote host cannot be reached, say), the run aborts
  before the destination is touched. Either \<open>run\<close> ends the process with exit code 1
  (the program could not be launched), or \<open>run\<close> returns and \<^verbatim>\<open>process.chdir\<close>
  into the missing cache directory throws, which ends the process with exit code 1 as
  well. Up to there the script has removed an old cache directory, invoked the clone
  and tried the \<^verbatim>\<open>chdir\<close>, and nothing else: the destination is neither deleted nor
  copied to, and the file system is the one the clone has left. The destination in it is
  the one from before the run, a clone writing nowhere but below its target.
\<close>

theorem failed_clone_aborts:
  assumes "clone_fails sp sd w0"
  shows "exit_code (sync sp depth sd w0) = 1
    \<and> (\<exists>L. log (final_state (sync sp depth sd w0)) = log w0 @ L
          \<and> set L \<subseteq> {EvRm (cacheDir sd), EvSpawn ''git'' (clone_args (cacheDir sd)),
                      EvChdir (cacheDir sd)})
    \<and> fs (final_state (sync sp depth sd w0)) = snd (clone_outcome sp sd w0)
    \<and> (lookup (snd (clone_outcome sp sd w0)) (docsPath sd) = lookup (fs (reset_cache sd w0)) (docsPath sd)
         \<longrightarrow> lookup (fs (final_state (sync sp depth sd w0))) (docsPath sd) = lookup (fs w0) (docsPath sd))"
proof -
  let ?w1 = "reset_cache sd w0"
  let ?c = "clone_args (cacheDir sd)"
  let ?w2 = "(record_event (EvSpawn ''git'' ?c) ?w1)\<lparr>fs := snd (clone_outcome sp sd w0)\<rparr>"
  have s: "sync sp depth sd w0 = seq (run sp ''git'' ?c ?w1) (\<lambda>w2.
         seq (chdir w2 (cacheDir sd)) (\<lambda>w3.
         seq (run sp ''git'' [''sparse-checkout'', ''set'', ''docs''] w3) (\<lambda>w4.
         seq (run sp ''git'' [''checkout''] w4) (publish depth sd))))"
    by (simp add: sync_def reset_cache_def publish_def Let_def seq_def split: sum.splits)
  have l1: "log ?w1 = log w0 \<or> log ?w1 = log w0 @ [EvRm (cacheDir sd)]"
    by (simp add: reset_cache_def rmSync_def record_event_def)
  have "lookup (remove (cacheDir sd) t) (docsPath sd) = lookup t (docsPath sd)" for t
    using lookup_remove_diverge [of "''src''" "''.cache''" "butlast sd" "[''next'']" t
        "[''content'', ''docs'', ''docs'']"]
    by (simp add: script_paths)
  then have d1: "lookup (fs ?w1) (docsPath sd) = lookup (fs w0) (docsPath sd)"
    by (simp add: reset_cache_def rmSync_def record_event_def)
  have r: "sync sp depth sd w0 = Inl (Exit 1, ?w2)
      \<or> sync sp depth sd w0 = Inl (Uncaught ENOENT, record_event (EvChdir (cacheDir sd)) ?w2)"
  proof (cases "error (fst (clone_outcome sp sd w0)) \<noteq> None")
    case True
    then have "run sp ''git'' ?c ?w1 = Inl (Exit 1, ?w2)"
      using run_launch_failure [of sp "''git''" ?c ?w1] by (simp add: clone_outcome_def)
    then show ?thesis by (simp add: s)
  next
    case False
    with assms have n: "lookup (snd (clone_outcome sp sd w0)) (cacheDir sd) = None"
      by (simp add: clone_fails_def)
    from False have "run sp ''git'' ?c ?w1 = Inr ?w2"
      using run_status_ignored [of sp "''git''" ?c ?w1] by (simp add: clone_outcome_def)
    moreover have "chdir ?w2 (cacheDir sd) = Inl (Uncaught ENOENT, record_event (EvChdir (cacheDir sd)) ?w2)"
      using n by (simp add: chdir_def record_event_def)
    ultimately show ?thesis by (simp add: s)
  qed
  from r l1 d1 show ?thesis
    by (elim disjE) (simp_all add: record_event_def)
qed

theorem failed_clone_aborts_witness:
  "exit_code (sync unreachable_git 8 [''site'', ''scripts''] start) = 1
   \<and> lookup (fs (final_state (sync unreachable_git 8 [''site'', ''scripts''] start)))
        (docsPath [''site'', ''scripts'']) = Some (Dir [(''stale.mdx'', File ''old'')])"
proof -
  have f: "clone_fails unreachable_git [''site'', ''scripts''] start" by code_simp
  have k: "lookup (snd (clone_outcome unreachable_git [''site'', ''scripts''] start))
        (docsPath [''site'', ''scripts'']) =
      lookup (fs (reset_cache [''site'', ''scripts''] start)) (docsPath [''site'', ''scripts''])"
    by code_simp
  have b: "lookup (fs start) (docsPath [''site'', ''scripts'']) = Some (Dir [(''stale.mdx'', File ''old'')])"
    by code_simp
  note t = failed_clone_aborts [OF f, of 8]
  from t have e: "exit_code (sync unreachable_git 8 [''site'', ''scripts''] start) = 1"
    by (rule conjunct1)
  from t k have "lookup (fs (final_state (sync unreachable_git 8 [''site'', ''scripts''] start)))
      (docsPath [''site'', ''scripts'']) = lookup (fs start) (docsPath [''site'', ''scripts''])"
    by blast
  with b e show ?thesis by (simp only:)
qed

end
